theory Spec2Isabelle
  imports Complex_Main "HOL-Library.AList" "HOL-Library.Word" "HOL-Library.Sublist"
begin

unbundle bit_operations_syntax

section \<open>The kqueue I/O manager of trio (\<^verbatim>\<open>trio/_core/_io_kqueue.py\<close>)\<close>

subsection \<open>Kernel events and the constants of the \<^verbatim>\<open>select\<close> module\<close>

text \<open>
  A \<^verbatim>\<open>select.kevent\<close>. The manager reads \<^verbatim>\<open>ident\<close>, \<^verbatim>\<open>filter\<close> and
  \<^verbatim>\<open>flags\<close> only; \<^verbatim>\<open>flags\<close> is the 16-bit field of the kernel structure.
\<close>

record kevent =
  ident :: int
  filter_kq :: int
  flags :: "16 word"
  fflags :: int
  data :: int
  udata :: int

text \<open>The values the BSD headers give to the constants the module uses.\<close>

definition KQ_EV_ADD :: "16 word" where
  "KQ_EV_ADD = 0x0001"

definition KQ_EV_DELETE :: "16 word" where
  "KQ_EV_DELETE = 0x0002"

definition KQ_EV_ONESHOT :: "16 word" where
  "KQ_EV_ONESHOT = 0x0010"

definition KQ_FILTER_READ :: int where
  "KQ_FILTER_READ = - 1"

definition KQ_FILTER_WRITE :: int where
  "KQ_FILTER_WRITE = - 2"

text \<open>\<^verbatim>\<open>select.kevent(ident, filter, flags)\<close>: the remaining fields default to 0.\<close>

definition select_kevent :: "int \<Rightarrow> int \<Rightarrow> 16 word \<Rightarrow> kevent" where
  "select_kevent i f fl =
     \<lparr>ident = i, filter_kq = f, flags = fl, fflags = 0, data = 0, udata = 0\<rparr>"

subsection \<open>The kernel queue\<close>

text \<open>
  The timeout of \<^verbatim>\<open>kqueue.control\<close>: \<^verbatim>\<open>None\<close> or a number of seconds. The manager
  never computes with it; it passes the caller's value or the constant 0.
\<close>

type_synonym timeout = "real option"

text \<open>
  The \<^verbatim>\<open>select.kqueue\<close> object is the operating system's; the module only calls
  \<^verbatim>\<open>control(changelist, max_events, timeout)\<close> on it. It is modelled by the events
  it holds ready (oldest first) together with a record of every call: the changes that
  were submitted and the \<^verbatim>\<open>(max_events, timeout)\<close> of each call.
\<close>

record kernel_queue =
  ready :: "kevent list"
  submitted :: "kevent list"
  polls :: "(nat \<times> timeout) list"

text \<open>
  \<^verbatim>\<open>control\<close> hands out at most \<^verbatim>\<open>max_events\<close> of the ready events, in order, and
  removes them from the queue.
\<close>

definition control ::
  "kernel_queue \<Rightarrow> kevent list \<Rightarrow> nat \<Rightarrow> timeout \<Rightarrow> kevent list \<times> kernel_queue" where
  "control kq changelist max_events t =
     (take max_events (ready kq),
      kq\<lparr>ready := drop max_events (ready kq),
         submitted := submitted kq @ changelist,
         polls := polls kq @ [(max_events, t)]\<rparr>)"

subsection \<open>Receivers, errors and the state\<close>

type_synonym task = nat

type_synonym key = "int \<times> int"

text \<open>
  The values of \<^verbatim>\<open>_registered\<close>: a \<^verbatim>\<open>_core.Task\<close>, or an
  \<^verbatim>\<open>_core.UnboundedQueue\<close> (named by its address in the store of queues).
\<close>

datatype receiver = Task task | Queue nat

text \<open>The exceptions the module raises; \<^verbatim>\<open>AttributeError\<close> comes from a missing \<^verbatim>\<open>fileno\<close>.\<close>

datatype error = RuntimeError string | KeyError key | AttributeError string

text \<open>
  A Python dict keeps its keys in insertion order: an association list, updated with
  \<^const>\<open>AList.update\<close> (in place when the key is there, at the end otherwise).
\<close>

type_synonym registrations = "(key \<times> receiver) list"

text \<open>\<^verbatim>\<open>d[key]\<close> and \<^verbatim>\<open>del d[key]\<close> raise \<^verbatim>\<open>KeyError(key)\<close> when the key is absent.\<close>

definition dict_getitem :: "registrations \<Rightarrow> key \<Rightarrow> error + receiver" where
  "dict_getitem d k = (case map_of d k of None \<Rightarrow> Inl (KeyError k) | Some r \<Rightarrow> Inr r)"

definition dict_delitem :: "registrations \<Rightarrow> key \<Rightarrow> error + registrations" where
  "dict_delitem d k =
     (case map_of d k of None \<Rightarrow> Inl (KeyError k) | Some r \<Rightarrow> Inr (AList.delete k d))"

definition dict_contains :: "registrations \<Rightarrow> key \<Rightarrow> bool" where
  "dict_contains d k = (map_of d k \<noteq> None)"

text \<open>
  The manager (\<^verbatim>\<open>_kqueue\<close>, \<^verbatim>\<open>_registered\<close>) together with the part of the scheduler
  its methods act on: the run queue that \<^verbatim>\<open>reschedule\<close> appends to, and the store of
  unbounded queues.
\<close>

record world =
  kqueue :: kernel_queue
  registered :: registrations
  runq :: "(task \<times> kevent) list"
  queues :: "nat \<Rightarrow> kevent list"
  next_queue :: nat

type_synonym 'a result = "(error + 'a) \<times> world"

text \<open>
  Modelled from the spec: \<^verbatim>\<open>_core.reschedule(task, _core.Value(event))\<close> is the
  scheduler's "resume task with result" primitive; the task is appended to the run queue
  with the event as the value its wait returns.
\<close>

definition reschedule :: "task \<Rightarrow> kevent \<Rightarrow> world \<Rightarrow> world" where
  "reschedule t ev s = s\<lparr>runq := runq s @ [(t, ev)]\<rparr>"

text \<open>
  Modelled from the spec: \<^verbatim>\<open>UnboundedQueue.put_nowait(event)\<close> pushes the event at the
  end of an unbounded queue; it neither blocks nor fails.
\<close>

definition put_nowait :: "nat \<Rightarrow> kevent \<Rightarrow> world \<Rightarrow> world" where
  "put_nowait q ev s = s\<lparr>queues := (queues s)(q := queues s q @ [ev])\<rparr>"

text \<open>
  Modelled from the spec: \<^verbatim>\<open>_core.UnboundedQueue()\<close> allocates a new, empty queue.
\<close>

definition UnboundedQueue :: "world \<Rightarrow> nat \<times> world" where
  "UnboundedQueue s =
     (next_queue s,
      s\<lparr>queues := (queues s)(next_queue s := []), next_queue := Suc (next_queue s)\<rparr>)"

text \<open>Modelled from the spec: the abort-outcome enum \<^verbatim>\<open>_core.Abort\<close>.\<close>

datatype Abort = SUCCEEDED | FAILED

subsection \<open>\<^verbatim>\<open>statistics\<close>\<close>

record KqueueStatistics =
  tasks_waiting :: nat
  monitors :: nat
  backend :: string

text \<open>The loop over \<^verbatim>\<open>self._registered.values()\<close>, with its two counters.\<close>

fun count_receivers :: "receiver list \<Rightarrow> nat \<Rightarrow> nat \<Rightarrow> nat \<times> nat" where
  "count_receivers [] tw mo = (tw, mo)"
| "count_receivers (Task t # rs) tw mo = count_receivers rs (tw + 1) mo"
| "count_receivers (Queue q # rs) tw mo = count_receivers rs tw (mo + 1)"

definition statistics :: "world \<Rightarrow> KqueueStatistics \<times> world" where
  "statistics s =
     (case count_receivers (map snd (registered s)) 0 0 of
        (tw, mo) \<Rightarrow> (\<lparr>tasks_waiting = tw, monitors = mo, backend = ''kqueue''\<rparr>, s))"

subsection \<open>\<^verbatim>\<open>handle_io\<close>\<close>

text \<open>
  The \<^verbatim>\<open>while True\<close> loop. Nothing in the loop bounds the number of rounds (with
  \<^verbatim>\<open>max_events = 0\<close> no batch is ever shorter than requested), so the function is
  partial: \<open>None\<close> is the loop that never leaves.
\<close>

partial_function (option) poll_loop ::
  "nat \<Rightarrow> timeout \<Rightarrow> kevent list \<Rightarrow> kernel_queue \<Rightarrow> (kevent list \<times> kernel_queue) option" where
  "poll_loop max_events t events kq =
     (case control kq [] max_events t of
        (batch, kq') \<Rightarrow>
          if length batch < max_events then Some (events @ batch, kq')
          else poll_loop max_events (Some 0) (events @ batch) kq')"

text \<open>The body of \<^verbatim>\<open>for event in events\<close>.\<close>

definition dispatch_event :: "kevent \<Rightarrow> world \<Rightarrow> unit result" where
  "dispatch_event event s =
     (let key = (ident event, filter_kq event) in
      case dict_getitem (registered s) key of
        Inl e \<Rightarrow> (Inl e, s)
      | Inr receiver \<Rightarrow>
          (case (if flags event AND KQ_EV_ONESHOT \<noteq> 0
                 then dict_delitem (registered s) key
                 else Inr (registered s)) of
             Inl e \<Rightarrow> (Inl e, s)
           | Inr d \<Rightarrow>
               (case receiver of
                  Task t \<Rightarrow> (Inr (), reschedule t event (s\<lparr>registered := d\<rparr>))
                | Queue q \<Rightarrow> (Inr (), put_nowait q event (s\<lparr>registered := d\<rparr>)))))"

text \<open>
  The same body statement by statement: the states it passes through once the receiver
  is looked up, first the state after the \<^verbatim>\<open>if\<close> statement with its \<^verbatim>\<open>del\<close>, then
  the state after the call that dispatches. A body that raises has changed nothing.
\<close>

definition dispatch_event_steps :: "kevent \<Rightarrow> world \<Rightarrow> (error + unit) \<times> world list" where
  "dispatch_event_steps event s =
     (let key = (ident event, filter_kq event) in
      case dict_getitem (registered s) key of
        Inl e \<Rightarrow> (Inl e, [])
      | Inr receiver \<Rightarrow>
          (case (if flags event AND KQ_EV_ONESHOT \<noteq> 0
                 then dict_delitem (registered s) key
                 else Inr (registered s)) of
             Inl e \<Rightarrow> (Inl e, [])
           | Inr d \<Rightarrow>
               (case receiver of
                  Task t \<Rightarrow>
                    (Inr (), [s\<lparr>registered := d\<rparr>, reschedule t event (s\<lparr>registered := d\<rparr>)])
                | Queue q \<Rightarrow>
                    (Inr (), [s\<lparr>registered := d\<rparr>, put_nowait q event (s\<lparr>registered := d\<rparr>)]))))"

text \<open>The \<^verbatim>\<open>for\<close> loop: an exception leaves it with the state reached so far.\<close>

fun dispatch_events :: "kevent list \<Rightarrow> world \<Rightarrow> unit result" where
  "dispatch_events [] s = (Inr (), s)"
| "dispatch_events (event # events) s =
     (case dispatch_event event s of
        (Inl e, s') \<Rightarrow> (Inl e, s')
      | (Inr u, s') \<Rightarrow> dispatch_events events s')"

definition handle_io :: "timeout \<Rightarrow> world \<Rightarrow> unit result option" where
  "handle_io t s =
     (let max_events = length (registered s) + 1 in
      case poll_loop max_events t [] (kqueue s) of
        None \<Rightarrow> None
      | Some (events, kq') \<Rightarrow> Some (dispatch_events events (s\<lparr>kqueue := kq'\<rparr>)))"

subsection \<open>\<^verbatim>\<open>monitor_kevent\<close>\<close>

definition duplicate_message :: string where
  "duplicate_message =
     ''attempt to register multiple listeners for same '' @ ''ident/filter pair''"

text \<open>
  The generator up to its \<^verbatim>\<open>yield\<close>: what entering the \<^verbatim>\<open>with\<close> block does. The
  result is the queue handed to the block.
\<close>

definition monitor_kevent_enter :: "int \<Rightarrow> int \<Rightarrow> world \<Rightarrow> nat result" where
  "monitor_kevent_enter i f s =
     (let key = (i, f) in
      if dict_contains (registered s) key then (Inl (RuntimeError duplicate_message), s)
      else case UnboundedQueue s of
             (q, s') \<Rightarrow> (Inr q, s'\<lparr>registered := AList.update key (Queue q) (registered s')\<rparr>))"

text \<open>
  The \<^verbatim>\<open>finally\<close> clause, run when the block is left with outcome \<open>r\<close> (a value or an
  exception): a \<^verbatim>\<open>KeyError\<close> from the \<^verbatim>\<open>del\<close> replaces the outcome.
\<close>

definition monitor_kevent_exit :: "int \<Rightarrow> int \<Rightarrow> 'a result \<Rightarrow> 'a result" where
  "monitor_kevent_exit i f r =
     (case r of (outcome, s) \<Rightarrow>
        (case dict_delitem (registered s) (i, f) of
           Inl e \<Rightarrow> (Inl e, s)
         | Inr d \<Rightarrow> (outcome, s\<lparr>registered := d\<rparr>)))"

text \<open>\<^verbatim>\<open>with monitor_kevent(ident, filter) as q: body\<close>.\<close>

definition monitor_kevent ::
  "int \<Rightarrow> int \<Rightarrow> (nat \<Rightarrow> world \<Rightarrow> 'a result) \<Rightarrow> world \<Rightarrow> 'a result" where
  "monitor_kevent i f body s =
     (case monitor_kevent_enter i f s of
        (Inl e, s') \<Rightarrow> (Inl e, s')
      | (Inr q, s') \<Rightarrow> monitor_kevent_exit i f (body q s'))"

subsection \<open>\<^verbatim>\<open>wait_kevent\<close>\<close>

text \<open>
  An abort function: called with the \<^verbatim>\<open>raise_cancel\<close> argument, it may act on the
  state, and returns an abort outcome or raises.
\<close>

type_synonym 'c abort_fn = "'c \<Rightarrow> world \<Rightarrow> Abort result"

text \<open>The closure \<^verbatim>\<open>abort\<close> that \<^verbatim>\<open>wait_kevent\<close> gives to the scheduler.\<close>

definition wait_kevent_abort :: "key \<Rightarrow> 'c abort_fn \<Rightarrow> 'c abort_fn" where
  "wait_kevent_abort key abort_func raise_cancel s =
     (case abort_func raise_cancel s of
        (Inl e, s') \<Rightarrow> (Inl e, s')
      | (Inr r, s') \<Rightarrow>
          if r = SUCCEEDED
          then (case dict_delitem (registered s') key of
                  Inl e \<Rightarrow> (Inl e, s')
                | Inr d \<Rightarrow> (Inr r, s'\<lparr>registered := d\<rparr>))
          else (Inr r, s'))"

text \<open>
  \<^verbatim>\<open>wait_kevent\<close> up to its suspension in \<^verbatim>\<open>yield_indefinitely(abort)\<close>, called by the
  task \<open>current_task\<close>. A normal result is the abort closure the scheduler now holds for
  the suspended task.
\<close>

definition wait_kevent ::
  "task \<Rightarrow> int \<Rightarrow> int \<Rightarrow> 'c abort_fn \<Rightarrow> world \<Rightarrow> ('c abort_fn) result" where
  "wait_kevent current_task i f abort_func s =
     (let key = (i, f) in
      if dict_contains (registered s) key then (Inl (RuntimeError duplicate_message), s)
      else (Inr (wait_kevent_abort key abort_func),
            s\<lparr>registered := AList.update key (Task current_task) (registered s)\<rparr>))"

subsection \<open>\<^verbatim>\<open>wait_readable\<close> and \<^verbatim>\<open>wait_writable\<close>\<close>

text \<open>
  The argument of \<^verbatim>\<open>wait_readable\<close>: an \<^verbatim>\<open>int\<close>, an object whose \<^verbatim>\<open>fileno()\<close>
  returns the given number, or an object without that method.
\<close>

datatype fd_arg = IntFd int | FileObj int | NoFileno

text \<open>\<^verbatim>\<open>fd.fileno()\<close>; an \<^verbatim>\<open>int\<close> has no such method either.\<close>

definition fileno :: "fd_arg \<Rightarrow> error + int" where
  "fileno fd = (case fd of
       IntFd n \<Rightarrow> Inl (AttributeError ''fileno'')
     | FileObj n \<Rightarrow> Inr n
     | NoFileno \<Rightarrow> Inl (AttributeError ''fileno''))"

text \<open>The closure \<^verbatim>\<open>abort\<close> of \<^verbatim>\<open>_wait_common\<close>.\<close>

definition wait_common_abort :: "int \<Rightarrow> int \<Rightarrow> 'c abort_fn" where
  "wait_common_abort fd f raise_cancel s =
     (let event = select_kevent fd f KQ_EV_DELETE in
      case control (kqueue s) [event] 0 None of
        (batch, kq') \<Rightarrow> (Inr SUCCEEDED, s\<lparr>kqueue := kq'\<rparr>))"

text \<open>
  \<^verbatim>\<open>_wait_common\<close>; \<^verbatim>\<open>isinstance(fd, int)\<close> holds of \<open>IntFd\<close> only, every other
  argument is replaced by its \<^verbatim>\<open>fileno()\<close>.
\<close>

definition wait_common :: "task \<Rightarrow> fd_arg \<Rightarrow> int \<Rightarrow> world \<Rightarrow> ('c abort_fn) result" where
  "wait_common current_task fd f s =
     (case (case fd of IntFd n \<Rightarrow> Inr n | _ \<Rightarrow> fileno fd) of
        Inl e \<Rightarrow> (Inl e, s)
      | Inr fd' \<Rightarrow>
          (let flags' = KQ_EV_ADD OR KQ_EV_ONESHOT;
               event = select_kevent fd' f flags' in
           case control (kqueue s) [event] 0 None of
             (batch, kq') \<Rightarrow>
               wait_kevent current_task fd' f (wait_common_abort fd' f) (s\<lparr>kqueue := kq'\<rparr>)))"

definition wait_readable :: "task \<Rightarrow> fd_arg \<Rightarrow> world \<Rightarrow> ('c abort_fn) result" where
  "wait_readable current_task fd s = wait_common current_task fd KQ_FILTER_READ s"

definition wait_writable :: "task \<Rightarrow> fd_arg \<Rightarrow> world \<Rightarrow> ('c abort_fn) result" where
  "wait_writable current_task fd s = wait_common current_task fd KQ_FILTER_WRITE s"

subsection \<open>A new manager and its environment\<close>

text \<open>
  The attribute defaults of \<^verbatim>\<open>KqueueIOManager\<close>: a new kernel queue and an empty
  dict, next to a scheduler that has rescheduled nothing and allocated no queue.
\<close>

definition select_kqueue :: kernel_queue where
  "select_kqueue = \<lparr>ready = [], submitted = [], polls = []\<rparr>"

definition KqueueIOManager :: world where
  "KqueueIOManager =
     \<lparr>kqueue = select_kqueue, registered = [], runq = [],
      queues = (\<lambda>q. []), next_queue = 0\<rparr>"

text \<open>The environment's move: the kernel finds further events ready.\<close>

definition kernel_fires :: "kevent list \<Rightarrow> world \<Rightarrow> world" where
  "kernel_fires evs s = s\<lparr>kqueue := (kqueue s)\<lparr>ready := ready (kqueue s) @ evs\<rparr>\<rparr>"

subsection \<open>Notions used to state the properties\<close>

text \<open>The key \<^verbatim>\<open>(event.ident, event.filter)\<close> and the test \<^verbatim>\<open>event.flags & KQ_EV_ONESHOT\<close>.\<close>

definition key_of :: "kevent \<Rightarrow> key" where
  "key_of event = (ident event, filter_kq event)"

definition oneshot :: "kevent \<Rightarrow> bool" where
  "oneshot event = (flags event AND KQ_EV_ONESHOT \<noteq> 0)"

text \<open>The dispatch proper: a task is resumed, a queue is pushed to.\<close>

definition deliver :: "receiver \<Rightarrow> kevent \<Rightarrow> world \<Rightarrow> world" where
  "deliver r event s = (case r of Task t \<Rightarrow> reschedule t event s | Queue q \<Rightarrow> put_nowait q event s)"

text \<open>The kernel queue once \<^verbatim>\<open>handle_io\<close> has polled it with capacity \<open>m\<close>.\<close>

definition drained :: "nat \<Rightarrow> timeout \<Rightarrow> kernel_queue \<Rightarrow> kernel_queue" where
  "drained m t kq =
     kq\<lparr>ready := [],
        polls := polls kq @ (m, t) # replicate (length (ready kq) div m) (m, Some 0)\<rparr>"

text \<open>
  What a run of the dispatch loop over \<open>evs\<close> hands to the scheduler and to queue
  \<open>q\<close>, read off the table \<open>d\<close> the loop starts from.
\<close>

definition resumed :: "registrations \<Rightarrow> kevent list \<Rightarrow> (task \<times> kevent) list" where
  "resumed d evs =
     concat (map (\<lambda>e. case map_of d (key_of e) of Some (Task t) \<Rightarrow> [(t, e)] | _ \<Rightarrow> []) evs)"

definition pushed :: "registrations \<Rightarrow> nat \<Rightarrow> kevent list \<Rightarrow> kevent list" where
  "pushed d q evs = filter (\<lambda>e. map_of d (key_of e) = Some (Queue q)) evs"

text \<open>The number of task receivers and of queue receivers in a table.\<close>

definition waiters :: "registrations \<Rightarrow> nat" where
  "waiters d = length (filter (\<lambda>(k, r). case r of Task t \<Rightarrow> True | Queue q \<Rightarrow> False) d)"

definition monitor_count :: "registrations \<Rightarrow> nat" where
  "monitor_count d = length (filter (\<lambda>(k, r). case r of Task t \<Rightarrow> False | Queue q \<Rightarrow> True) d)"

text \<open>A Python dict holds every key once.\<close>

definition table_ok :: "world \<Rightarrow> bool" where
  "table_ok s = distinct (map fst (registered s))"

subsection \<open>Error messages\<close>

text \<open>Python's \<^verbatim>\<open>str\<close> of a number and \<^verbatim>\<open>repr\<close> of a pair of numbers.\<close>

fun str_nat :: "nat \<Rightarrow> string" where
  "str_nat n =
     (if n < 10 then [''0123456789'' ! n]
      else str_nat (n div 10) @ [''0123456789'' ! (n mod 10)])"

declare str_nat.simps [simp del]

definition str_int :: "int \<Rightarrow> string" where
  "str_int i = (if i < 0 then ''-'' @ str_nat (nat (- i)) else str_nat (nat i))"

definition repr_key :: "key \<Rightarrow> string" where
  "repr_key k = ''('' @ str_int (fst k) @ '', '' @ str_int (snd k) @ '')''"

text \<open>
  \<^verbatim>\<open>str(exc)\<close>: the text an exception was raised with; for a \<^verbatim>\<open>KeyError\<close> the
  \<^verbatim>\<open>repr\<close> of the key.
\<close>

definition message :: "error \<Rightarrow> string" where
  "message e = (case e of RuntimeError m \<Rightarrow> m | KeyError k \<Rightarrow> repr_key k | AttributeError m \<Rightarrow> m)"

text \<open>A message names a key when both numbers of the key occur in it.\<close>

definition mentions_key :: "error \<Rightarrow> key \<Rightarrow> bool" where
  "mentions_key e k = (sublist (str_int (fst k)) (message e) \<and> sublist (str_int (snd k)) (message e))"

subsection \<open>Example runs\<close>

text \<open>
  The abort function \<^verbatim>\<open>wait_readable(9)\<close> passes on, and one that reports a lost race.
\<close>

definition cancel_kernel_interest :: "unit abort_fn" where
  "cancel_kernel_interest = wait_common_abort 9 KQ_FILTER_READ"

definition lose_race :: "unit abort_fn" where
  "lose_race raise_cancel s = (Inr FAILED, s)"

text \<open>Task 1 has called \<^verbatim>\<open>wait_readable(9)\<close> on a new manager.\<close>

definition pending_read_9 :: world where
  "pending_read_9 = snd (wait_readable 1 (IntFd 9) KqueueIOManager :: (unit abort_fn) result)"

text \<open>A change handed to the kernel with \<^verbatim>\<open>control([event], 0)\<close>.\<close>

definition kernel_submit :: "kevent \<Rightarrow> world \<Rightarrow> world" where
  "kernel_submit event s = s\<lparr>kqueue := snd (control (kqueue s) [event] 0 None)\<rparr>"

text \<open>A block of a \<^verbatim>\<open>with\<close> statement that raises.\<close>

definition failing_body :: "nat \<Rightarrow> world \<Rightarrow> unit result" where
  "failing_body q s = (Inl (AttributeError ''body''), s)"

text \<open>
  A monitor on \<^verbatim>\<open>(3, KQ_FILTER_WRITE)\<close> in a new manager, and three write events for
  it that differ in their \<^verbatim>\<open>data\<close>.
\<close>

definition monitor_3_write :: world where
  "monitor_3_write = snd (monitor_kevent_enter 3 KQ_FILTER_WRITE KqueueIOManager)"

definition write_event :: "int \<Rightarrow> kevent" where
  "write_event n = (select_kevent 3 KQ_FILTER_WRITE KQ_EV_ADD)\<lparr>data := n\<rparr>"

definition three_writes :: world where
  "three_writes = kernel_fires [write_event 1, write_event 2, write_event 3] monitor_3_write"

text \<open>The same monitor when the kernel reports a one-shot event for its key.\<close>

definition oneshot_write :: kevent where
  "oneshot_write = select_kevent 3 KQ_FILTER_WRITE (KQ_EV_ADD OR KQ_EV_ONESHOT)"

definition monitor_oneshot :: world where
  "monitor_oneshot = kernel_fires [oneshot_write] monitor_3_write"

text \<open>
  The same monitor when the kernel reports an event without the flag and then a one-shot
  event for its key.
\<close>

definition plain_then_oneshot :: world where
  "plain_then_oneshot = kernel_fires [write_event 1, oneshot_write] monitor_3_write"

text \<open>Task 1 waits on \<^verbatim>\<open>(9, KQ_FILTER_READ)\<close> and the descriptor becomes readable.\<close>

definition read_event :: kevent where
  "read_event = select_kevent 9 KQ_FILTER_READ (KQ_EV_ADD OR KQ_EV_ONESHOT)"

definition readable_9 :: world where
  "readable_9 = kernel_fires [read_event] pending_read_9"

text \<open>An event for a key nobody registered.\<close>

definition stray_event :: world where
  "stray_event = kernel_fires [write_event 1] pending_read_9"

text \<open>Tasks 1 and 2 wait on two descriptors and a monitor is open on a third key.\<close>

definition two_waiters_one_monitor :: world where
  "two_waiters_one_monitor =
     snd (monitor_kevent_enter 3 KQ_FILTER_WRITE
       (snd (wait_kevent 2 7 KQ_FILTER_READ lose_race pending_read_9)))"

text \<open>
  One tick of the scheduler in which the kernel has one event ready: the state
  \<^verbatim>\<open>handle_io(0)\<close> leaves.
\<close>

definition tick :: "kevent \<Rightarrow> world \<Rightarrow> world" where
  "tick event s = (case handle_io (Some 0) (kernel_fires [event] s) of
       Some (outcome, s') \<Rightarrow> s' | None \<Rightarrow> s)"

subsection \<open>The polling loop\<close>

text \<open>
  With a positive capacity the loop ends: every full batch shortens the kernel's list of
  ready events, and the first batch that is not full ends the loop.
\<close>

lemma poll_loop_drains:
  "0 < m \<Longrightarrow> poll_loop m t evs kq = Some (evs @ ready kq, drained m t kq)"
proof (induction "length (ready kq)" arbitrary: t evs kq rule: less_induct)
  case less
  show ?case
  proof (cases "length (ready kq) < m")
    case True
    then show ?thesis
      by (subst poll_loop.simps) (simp add: control_def drained_def)
  next
    case False
    define kq' where "kq' = snd (control kq [] m t)"
    have len: "length (ready kq') < length (ready kq)"
      using False less.prems by (simp add: kq'_def control_def)
    have step: "poll_loop m t evs kq = poll_loop m (Some 0) (evs @ take m (ready kq)) kq'"
      using False by (subst poll_loop.simps) (simp add: control_def kq'_def)
    have d: "length (ready kq) div m = Suc ((length (ready kq) - m) div m)"
      using False less.prems by (simp add: le_div_geq)
    have "drained m (Some 0) kq' = drained m t kq"
      using False by (simp add: drained_def kq'_def control_def d)
    moreover have "(evs @ take m (ready kq)) @ ready kq' = evs @ ready kq"
      by (simp add: kq'_def control_def)
    ultimately show ?thesis
      using less.hyps [OF len less.prems, of "Some 0" "evs @ take m (ready kq)"] step by simp
  qed
qed

lemma handle_io_eq:
  "handle_io t s =
     Some (dispatch_events (ready (kqueue s))
             (s\<lparr>kqueue := drained (length (registered s) + 1) t (kqueue s)\<rparr>))"
  by (simp add: handle_io_def poll_loop_drains)

subsection \<open>The example runs\<close>

lemmas example_defs = three_writes_def monitor_3_write_def kernel_fires_def write_event_def
  monitor_kevent_enter_def KqueueIOManager_def select_kqueue_def UnboundedQueue_def
  dict_contains_def select_kevent_def Let_def monitor_oneshot_def oneshot_write_def
  read_event_def readable_9_def stray_event_def pending_read_9_def wait_kevent_def
  wait_readable_def wait_common_def control_def kernel_submit_def

lemma pending_read_9_simps:
  "registered pending_read_9 = [((9, KQ_FILTER_READ), Task 1)]"
  "ready (kqueue pending_read_9) = []"
  "runq pending_read_9 = []"
  "submitted (kqueue pending_read_9) =
     [select_kevent 9 KQ_FILTER_READ (KQ_EV_ADD OR KQ_EV_ONESHOT)]"
  "next_queue pending_read_9 = 0"
  by (simp_all add: pending_read_9_def wait_readable_def wait_common_def wait_kevent_def
      control_def KqueueIOManager_def select_kqueue_def dict_contains_def Let_def)

lemma pending_read_9_wait:
  "wait_kevent 1 9 KQ_FILTER_READ abort_func
     (kernel_submit (select_kevent 9 KQ_FILTER_READ (KQ_EV_ADD OR KQ_EV_ONESHOT))
        KqueueIOManager) =
   (Inr (wait_kevent_abort (9, KQ_FILTER_READ) abort_func), pending_read_9)"
  by (simp add: pending_read_9_def wait_readable_def wait_common_def wait_kevent_def
      kernel_submit_def control_def KqueueIOManager_def select_kqueue_def dict_contains_def
      Let_def)

lemma stray_event_simps:
  "registered stray_event = [((9, KQ_FILTER_READ), Task 1)]"
  "ready (kqueue stray_event) = [write_event 1]"
  by (simp_all add: stray_event_def kernel_fires_def pending_read_9_simps)

lemma readable_9_simps:
  "registered readable_9 = [((9, KQ_FILTER_READ), Task 1)]"
  "ready (kqueue readable_9) = [read_event]"
  "runq readable_9 = []"
  by (simp_all add: readable_9_def kernel_fires_def pending_read_9_simps)

lemma read_event_simps:
  "key_of read_event = (9, KQ_FILTER_READ)" "oneshot read_event"
  by (simp_all add: read_event_def select_kevent_def key_of_def oneshot_def KQ_EV_ADD_def
      KQ_EV_ONESHOT_def)

lemma three_writes_simps:
  "registered three_writes = [((3, KQ_FILTER_WRITE), Queue 0)]"
  "ready (kqueue three_writes) = [write_event 1, write_event 2, write_event 3]"
  "polls (kqueue three_writes) = []"
  "queues three_writes 0 = []"
  by (simp_all add: example_defs)

lemma write_event_simps:
  "key_of (write_event n) = (3, KQ_FILTER_WRITE)" "\<not> oneshot (write_event n)"
  by (simp_all add: write_event_def select_kevent_def key_of_def oneshot_def KQ_EV_ADD_def
      KQ_EV_ONESHOT_def)

lemma monitor_oneshot_simps:
  "registered monitor_oneshot = [((3, KQ_FILTER_WRITE), Queue 0)]"
  "ready (kqueue monitor_oneshot) = [oneshot_write]"
  "queues monitor_oneshot 0 = []"
  by (simp_all add: monitor_oneshot_def monitor_3_write_def kernel_fires_def
      monitor_kevent_enter_def KqueueIOManager_def select_kqueue_def UnboundedQueue_def
      dict_contains_def Let_def)

lemma oneshot_write_simps:
  "key_of oneshot_write = (3, KQ_FILTER_WRITE)" "oneshot oneshot_write"
  by (simp_all add: oneshot_write_def select_kevent_def key_of_def oneshot_def KQ_EV_ADD_def
      KQ_EV_ONESHOT_def)

lemma monitor_3_write_simps:
  "registered monitor_3_write = [((3, KQ_FILTER_WRITE), Queue 0)]"
  "ready (kqueue monitor_3_write) = []"
  "queues monitor_3_write 0 = []"
  by (simp_all add: example_defs)

lemma plain_then_oneshot_simps:
  "registered plain_then_oneshot = [((3, KQ_FILTER_WRITE), Queue 0)]"
  "ready (kqueue plain_then_oneshot) = [write_event 1, oneshot_write]"
  "queues plain_then_oneshot 0 = []"
  by (simp_all add: plain_then_oneshot_def kernel_fires_def monitor_3_write_simps)

subsection \<open>The dispatch loop\<close>

lemma dispatch_event_found:
  "map_of (registered s) (key_of event) = Some r \<Longrightarrow>
   dispatch_event event s =
     (Inr (), deliver r event
        (s\<lparr>registered := (if oneshot event then AList.delete (key_of event) (registered s)
                          else registered s)\<rparr>))"
  by (cases r) (simp_all add: dispatch_event_def dict_getitem_def dict_delitem_def key_of_def
      oneshot_def deliver_def Let_def)

lemma dispatch_event_missing:
  "map_of (registered s) (key_of event) = None \<Longrightarrow>
   dispatch_event event s = (Inl (KeyError (key_of event)), s)"
  by (simp add: dispatch_event_def dict_getitem_def key_of_def)

text \<open>The statement-by-statement run ends in the state the body returns.\<close>

lemma dispatch_event_steps_last:
  "dispatch_event event s =
     (fst (dispatch_event_steps event s), last (s # snd (dispatch_event_steps event s)))"
  by (simp add: dispatch_event_def dispatch_event_steps_def Let_def
      split: sum.splits receiver.splits)

lemma dispatch_event_steps_found:
  "map_of (registered s) (key_of event) = Some r \<Longrightarrow>
   dispatch_event_steps event s =
     (Inr (),
      [s\<lparr>registered := (if oneshot event then AList.delete (key_of event) (registered s)
                         else registered s)\<rparr>,
       deliver r event
        (s\<lparr>registered := (if oneshot event then AList.delete (key_of event) (registered s)
                          else registered s)\<rparr>)])"
  by (cases r) (simp_all add: dispatch_event_steps_def dict_getitem_def dict_delitem_def
      key_of_def oneshot_def deliver_def Let_def)

lemma registered_deliver [simp]: "registered (deliver r event s) = registered s"
  by (cases r) (simp_all add: deliver_def reschedule_def put_nowait_def)

lemma kqueue_deliver [simp]: "kqueue (deliver r event s) = kqueue s"
  by (cases r) (simp_all add: deliver_def reschedule_def put_nowait_def)

lemma map_of_delete_self: "map_of (AList.delete k d) k = None"
  by (simp add: delete_conv')

lemma map_of_delete_Some: "map_of (AList.delete k d) k' = Some r \<Longrightarrow> map_of d k' = Some r"
  by (cases "k' = k") (simp_all add: delete_conv')

text \<open>A successful step never adds to the table.\<close>

lemma dispatch_event_shrinks:
  assumes "dispatch_event event s = (Inr u, s')" "map_of (registered s') k = Some r"
  shows "map_of (registered s) k = Some r"
proof (cases "map_of (registered s) (key_of event)")
  case None
  with assms show ?thesis by (simp add: dispatch_event_missing)
next
  case (Some r0)
  with assms show ?thesis
    by (auto simp: dispatch_event_found split: if_splits dest: map_of_delete_Some)
qed

lemma dispatch_events_shrinks:
  "dispatch_events evs s = (res, s') \<Longrightarrow> map_of (registered s') k = Some r \<Longrightarrow>
   map_of (registered s) k = Some r"
proof (induction evs arbitrary: s)
  case Nil
  then show ?case by simp
next
  case (Cons e evs)
  show ?case
  proof (cases "map_of (registered s) (key_of e)")
    case None
    with Cons.prems show ?thesis by (simp add: dispatch_event_missing)
  next
    case (Some r0)
    define s1 where "s1 = snd (dispatch_event e s)"
    have e: "dispatch_event e s = (Inr (), s1)"
      using Some by (simp add: s1_def dispatch_event_found)
    with Cons.prems have "dispatch_events evs s1 = (res, s')" by simp
    from Cons.IH [OF this Cons.prems(2)] have "map_of (registered s1) k = Some r" .
    from dispatch_event_shrinks [OF e this] show ?thesis .
  qed
qed

text \<open>The loop splits at any position.\<close>

lemma dispatch_events_append:
  "dispatch_events (pre @ post) s =
     (case dispatch_events pre s of
        (Inl e, s1) \<Rightarrow> (Inl e, s1)
      | (Inr u, s1) \<Rightarrow> dispatch_events post s1)"
  by (induction pre arbitrary: s) (auto split: prod.splits sum.splits)

text \<open>A one-shot event that was dispatched has left no registration behind.\<close>

lemma dispatch_events_oneshot_absent:
  "dispatch_events evs s = (Inr u, s') \<Longrightarrow> e \<in> set evs \<Longrightarrow> oneshot e \<Longrightarrow>
   map_of (registered s') (key_of e) = None"
proof (induction evs arbitrary: s)
  case Nil
  then show ?case by simp
next
  case (Cons a evs)
  obtain o1 s1 where a: "dispatch_event a s = (o1, s1)" by (cases "dispatch_event a s")
  with Cons.prems obtain u1 where o1: "o1 = Inr u1" by (cases o1) auto
  with a Cons.prems have rest: "dispatch_events evs s1 = (Inr u, s')" by simp
  show ?case
  proof (cases "e \<in> set evs")
    case True
    from Cons.IH [OF rest True Cons.prems(3)] show ?thesis .
  next
    case False
    with Cons.prems have ea: "e = a" by simp
    have "map_of (registered s1) (key_of e) = None"
    proof (cases "map_of (registered s) (key_of a)")
      case None
      with a o1 show ?thesis by (simp add: dispatch_event_missing)
    next
      case (Some r0)
      with a o1 ea Cons.prems(3) show ?thesis
        by (auto simp: dispatch_event_found map_of_delete_self)
    qed
    then show ?thesis
      using dispatch_events_shrinks [OF rest] by (cases "map_of (registered s') (key_of e)") auto
  qed
qed

text \<open>An exception names the first event that finds no registration.\<close>

lemma dispatch_events_cases:
  "(\<exists>s'. dispatch_events evs s = (Inr (), s')) \<or>
   (\<exists>pre e post s1. evs = pre @ e # post \<and> dispatch_events pre s = (Inr (), s1) \<and>
      map_of (registered s1) (key_of e) = None \<and>
      dispatch_events evs s = (Inl (KeyError (key_of e)), s1))"
proof (induction evs arbitrary: s)
  case Nil
  then show ?case by simp
next
  case (Cons a evs)
  show ?case
  proof (cases "map_of (registered s) (key_of a)")
    case None
    then have "a # evs = [] @ a # evs \<and> dispatch_events [] s = (Inr (), s) \<and>
      map_of (registered s) (key_of a) = None \<and>
      dispatch_events (a # evs) s = (Inl (KeyError (key_of a)), s)"
      by (simp add: dispatch_event_missing)
    then show ?thesis by blast
  next
    case (Some r0)
    define s1 where "s1 = snd (dispatch_event a s)"
    have a: "dispatch_event a s = (Inr (), s1)"
      using Some by (simp add: s1_def dispatch_event_found)
    from Cons.IH [of s1] show ?thesis
    proof
      assume "\<exists>s'. dispatch_events evs s1 = (Inr (), s')"
      with a show ?thesis by auto
    next
      assume "\<exists>pre e post s2. evs = pre @ e # post \<and> dispatch_events pre s1 = (Inr (), s2) \<and>
        map_of (registered s2) (key_of e) = None \<and>
        dispatch_events evs s1 = (Inl (KeyError (key_of e)), s2)"
      then obtain pre e post s2 where h: "evs = pre @ e # post"
        "dispatch_events pre s1 = (Inr (), s2)" "map_of (registered s2) (key_of e) = None"
        "dispatch_events evs s1 = (Inl (KeyError (key_of e)), s2)" by blast
      then have "a # evs = (a # pre) @ e # post \<and> dispatch_events (a # pre) s = (Inr (), s2) \<and>
        map_of (registered s2) (key_of e) = None \<and>
        dispatch_events (a # evs) s = (Inl (KeyError (key_of e)), s2)"
        using a by simp
      then show ?thesis by blast
    qed
  qed
qed

subsection \<open>The table stays a dict\<close>

lemma table_ok_new: "table_ok KqueueIOManager"
  by (simp add: table_ok_def KqueueIOManager_def)

lemma table_ok_wait_kevent:
  "table_ok s \<Longrightarrow> table_ok (snd (wait_kevent current_task i f abort_func s))"
  by (simp add: table_ok_def wait_kevent_def Let_def distinct_update)

lemma table_ok_wait_kevent_abort:
  "table_ok (snd (abort_func raise_cancel s)) \<Longrightarrow>
   table_ok (snd (wait_kevent_abort key abort_func raise_cancel s))"
  by (auto simp: table_ok_def wait_kevent_abort_def dict_delitem_def distinct_delete
      split: prod.splits sum.splits option.splits)

lemma table_ok_monitor_kevent_enter:
  "table_ok s \<Longrightarrow> table_ok (snd (monitor_kevent_enter i f s))"
  by (simp add: table_ok_def monitor_kevent_enter_def UnboundedQueue_def Let_def distinct_update)

lemma table_ok_monitor_kevent_exit:
  "table_ok (snd r) \<Longrightarrow> table_ok (snd (monitor_kevent_exit i f r))"
  by (auto simp: table_ok_def monitor_kevent_exit_def dict_delitem_def distinct_delete
      split: prod.splits sum.splits option.splits)

lemma table_ok_dispatch_event:
  "table_ok s \<Longrightarrow> table_ok (snd (dispatch_event event s))"
proof (cases "map_of (registered s) (key_of event)")
  case None
  then show "table_ok s \<Longrightarrow> ?thesis" by (simp add: dispatch_event_missing)
next
  case (Some r)
  then show "table_ok s \<Longrightarrow> ?thesis"
    by (simp add: dispatch_event_found table_ok_def distinct_delete)
qed

lemma table_ok_dispatch_events:
  "table_ok s \<Longrightarrow> table_ok (snd (dispatch_events evs s))"
proof (induction evs arbitrary: s)
  case Nil
  then show ?case by simp
next
  case (Cons e evs)
  obtain o1 s1 where e: "dispatch_event e s = (o1, s1)" by (cases "dispatch_event e s")
  with table_ok_dispatch_event [OF Cons.prems, of e] have ok1: "table_ok s1" by simp
  show ?case
  proof (cases o1)
    case (Inl err)
    with e ok1 show ?thesis by simp
  next
    case (Inr u)
    with e Cons.IH [OF ok1] show ?thesis by simp
  qed
qed

lemma table_ok_handle_io:
  "table_ok s \<Longrightarrow> handle_io t s = Some (res, s') \<Longrightarrow> table_ok s'"
proof -
  assume ok: "table_ok s" and h: "handle_io t s = Some (res, s')"
  define s0 where "s0 = s\<lparr>kqueue := drained (length (registered s) + 1) t (kqueue s)\<rparr>"
  from ok have "table_ok s0" by (simp add: table_ok_def s0_def)
  from table_ok_dispatch_events [OF this, of "ready (kqueue s)"] h show ?thesis
    by (simp add: handle_io_eq s0_def)
qed

text \<open>In such a table the entries counted are the keys with a receiver of the kind.\<close>

lemma card_keys_filter:
  "distinct (map fst d) \<Longrightarrow>
   card {k. \<exists>r. map_of d k = Some r \<and> Q r} = length (filter (\<lambda>(k, r). Q r) d)"
proof (induction d)
  case Nil
  then show ?case by simp
next
  case (Cons p d)
  obtain k0 r0 where p: "p = (k0, r0)" by (cases p)
  let ?A = "{k. \<exists>r. map_of d k = Some r \<and> Q r}"
  from Cons.prems p have fresh: "k0 \<notin> fst ` set d" and dist: "distinct (map fst d)" by simp_all
  then have none: "map_of d k0 = None" by (simp add: map_of_eq_None_iff)
  have fin: "finite ?A"
  proof (rule finite_subset)
    show "?A \<subseteq> fst ` set d" by (auto dest: map_of_SomeD intro: rev_image_eqI)
  qed simp
  from none have notin: "k0 \<notin> ?A" by simp
  have set_eq: "{k. \<exists>r. map_of (p # d) k = Some r \<and> Q r} = (if Q r0 then insert k0 ?A else ?A)"
    using none by (auto simp: p)
  have ih: "card ?A = length (filter (\<lambda>(k, r). Q r) d)" by (rule Cons.IH [OF dist])
  show ?case
  proof (cases "Q r0")
    case True
    with set_eq have "card {k. \<exists>r. map_of (p # d) k = Some r \<and> Q r} = card (insert k0 ?A)"
      by (simp only: if_True)
    also from fin notin have "\<dots> = Suc (card ?A)" by (rule card_insert_disjoint)
    finally show ?thesis using True ih by (simp add: p)
  next
    case False
    with set_eq have "card {k. \<exists>r. map_of (p # d) k = Some r \<and> Q r} = card ?A"
      by (simp only: if_False)
    then show ?thesis using False ih by (simp add: p)
  qed
qed

lemma waiters_card:
  "table_ok s \<Longrightarrow>
   waiters (registered s) = card {k. \<exists>tk. map_of (registered s) k = Some (Task tk)}"
proof -
  assume "table_ok s"
  then have "card {k. \<exists>r. map_of (registered s) k = Some r \<and>
      (case r of Task tk \<Rightarrow> True | Queue q \<Rightarrow> False)} = waiters (registered s)"
    unfolding waiters_def table_ok_def by (rule card_keys_filter)
  moreover have "{k. \<exists>r. map_of (registered s) k = Some r \<and>
      (case r of Task tk \<Rightarrow> True | Queue q \<Rightarrow> False)} =
    {k. \<exists>tk. map_of (registered s) k = Some (Task tk)}"
  proof (rule Collect_cong)
    fix k
    show "(\<exists>r. map_of (registered s) k = Some r \<and>
        (case r of Task tk \<Rightarrow> True | Queue q \<Rightarrow> False)) =
      (\<exists>tk. map_of (registered s) k = Some (Task tk))"
      by (cases "map_of (registered s) k") (auto split: receiver.splits)
  qed
  ultimately show ?thesis by simp
qed

lemma monitor_count_card:
  "table_ok s \<Longrightarrow>
   monitor_count (registered s) = card {k. \<exists>q. map_of (registered s) k = Some (Queue q)}"
proof -
  assume "table_ok s"
  then have "card {k. \<exists>r. map_of (registered s) k = Some r \<and>
      (case r of Task tk \<Rightarrow> False | Queue q \<Rightarrow> True)} = monitor_count (registered s)"
    unfolding monitor_count_def table_ok_def by (rule card_keys_filter)
  moreover have "{k. \<exists>r. map_of (registered s) k = Some r \<and>
      (case r of Task tk \<Rightarrow> False | Queue q \<Rightarrow> True)} =
    {k. \<exists>q. map_of (registered s) k = Some (Queue q)}"
  proof (rule Collect_cong)
    fix k
    show "(\<exists>r. map_of (registered s) k = Some r \<and>
        (case r of Task tk \<Rightarrow> False | Queue q \<Rightarrow> True)) =
      (\<exists>q. map_of (registered s) k = Some (Queue q))"
      by (cases "map_of (registered s) k") (auto split: receiver.splits)
  qed
  ultimately show ?thesis by simp
qed

subsection \<open>Statistics\<close>

lemma count_receivers_eq:
  "count_receivers (map snd d) tw mo = (tw + waiters d, mo + monitor_count d)"
proof (induction d arbitrary: tw mo)
  case Nil
  then show ?case by (simp add: waiters_def monitor_count_def)
next
  case (Cons p d)
  obtain k r where p: "p = (k, r)" by (cases p)
  show ?case
  proof (cases r)
    case (Task t)
    with p Cons.IH [of "tw + 1" mo] show ?thesis by (simp add: waiters_def monitor_count_def)
  next
    case (Queue q)
    with p Cons.IH [of tw "mo + 1"] show ?thesis by (simp add: waiters_def monitor_count_def)
  qed
qed

text \<open>
  Claim C9. Whatever the registration table holds, \<^verbatim>\<open>statistics()\<close> returns the snapshot
  whose \<^verbatim>\<open>tasks_waiting\<close> is the number of task receivers in the table, whose
  \<^verbatim>\<open>monitors\<close> is the number of queue receivers and whose \<^verbatim>\<open>backend\<close> is
  \<^verbatim>\<open>"kqueue"\<close>, and it leaves the whole state, the table included, as it was. Every
  entry is counted on exactly one side; in a table that holds every key once, the two
  numbers are the number of keys registered to a task and the number of keys registered
  to a queue.
\<close>

theorem statistics_snapshot:
  "statistics s =
     (\<lparr>tasks_waiting = waiters (registered s), monitors = monitor_count (registered s),
       backend = ''kqueue''\<rparr>, s)
   \<and> waiters (registered s) + monitor_count (registered s) = length (registered s)
   \<and> (table_ok s \<longrightarrow>
        waiters (registered s) = card {k. \<exists>tk. map_of (registered s) k = Some (Task tk)}
        \<and> monitor_count (registered s) =
            card {k. \<exists>q. map_of (registered s) k = Some (Queue q)})"
proof -
  have "waiters d + monitor_count d = length d" for d
    unfolding waiters_def monitor_count_def
    by (induction d) (auto split: receiver.splits)
  then show ?thesis
    by (simp add: statistics_def count_receivers_eq waiters_card monitor_count_card)
qed

theorem statistics_snapshot_witness:
  "table_ok two_waiters_one_monitor
   \<and> registered two_waiters_one_monitor =
       [((9, KQ_FILTER_READ), Task 1), ((7, KQ_FILTER_READ), Task 2),
        ((3, KQ_FILTER_WRITE), Queue 0)]
   \<and> fst (statistics two_waiters_one_monitor) =
       \<lparr>tasks_waiting = 2, monitors = 1, backend = ''kqueue''\<rparr>
   \<and> snd (statistics two_waiters_one_monitor) = two_waiters_one_monitor
   \<and> card {k. \<exists>tk. map_of (registered two_waiters_one_monitor) k = Some (Task tk)} = 2
   \<and> card {k. \<exists>q. map_of (registered two_waiters_one_monitor) k = Some (Queue q)} = 1"
proof -
  have reg: "registered two_waiters_one_monitor =
       [((9, KQ_FILTER_READ), Task 1), ((7, KQ_FILTER_READ), Task 2),
        ((3, KQ_FILTER_WRITE), Queue 0)]"
    by (simp add: two_waiters_one_monitor_def monitor_kevent_enter_def wait_kevent_def
        pending_read_9_simps UnboundedQueue_def dict_contains_def Let_def
        KQ_FILTER_READ_def KQ_FILTER_WRITE_def)
  have ok: "table_ok two_waiters_one_monitor"
    by (simp add: table_ok_def reg KQ_FILTER_READ_def KQ_FILTER_WRITE_def)
  have w: "waiters (registered two_waiters_one_monitor) = 2"
    by (simp add: reg waiters_def)
  have m: "monitor_count (registered two_waiters_one_monitor) = 1"
    by (simp add: reg monitor_count_def)
  note t = statistics_snapshot [of two_waiters_one_monitor]
  from t w m have c1: "fst (statistics two_waiters_one_monitor) =
       \<lparr>tasks_waiting = 2, monitors = 1, backend = ''kqueue''\<rparr>" by simp
  from t have c2: "snd (statistics two_waiters_one_monitor) = two_waiters_one_monitor" by simp
  from t ok w have c3:
    "card {k. \<exists>tk. map_of (registered two_waiters_one_monitor) k = Some (Task tk)} = 2"
    by simp
  from t ok m have c4:
    "card {k. \<exists>q. map_of (registered two_waiters_one_monitor) k = Some (Queue q)} = 1"
    by simp
  from ok reg c1 c2 c3 c4 show ?thesis by (intro conjI)
qed

subsection \<open>Registration\<close>

text \<open>
  Claim C2. When the key \<^verbatim>\<open>(ident, filter)\<close> is already in the registration table,
  \<^verbatim>\<open>wait_kevent\<close> and \<^verbatim>\<open>monitor_kevent\<close> raise the \<^verbatim>\<open>RuntimeError\<close> for a
  duplicate registration at once: no abort closure is handed to the scheduler (the task is
  not suspended), the block of the \<^verbatim>\<open>with\<close> statement is not run, and the state, the
  table with the existing registration included, is exactly the state before the call.
\<close>

theorem duplicate_registration_rejected:
  assumes "dict_contains (registered s) (i, f)"
  shows "wait_kevent current_task i f abort_func s = (Inl (RuntimeError duplicate_message), s)
       \<and> monitor_kevent_enter i f s = (Inl (RuntimeError duplicate_message), s)
       \<and> monitor_kevent i f body s = (Inl (RuntimeError duplicate_message), s)"
  using assms by (simp add: wait_kevent_def monitor_kevent_enter_def monitor_kevent_def)

theorem duplicate_registration_rejected_witness:
  "dict_contains (registered pending_read_9) (9, KQ_FILTER_READ)
   \<and> wait_kevent 2 9 KQ_FILTER_READ cancel_kernel_interest pending_read_9 =
       (Inl (RuntimeError duplicate_message), pending_read_9)
   \<and> monitor_kevent_enter 9 KQ_FILTER_READ pending_read_9 =
       (Inl (RuntimeError duplicate_message), pending_read_9)
   \<and> map_of (registered pending_read_9) (9, KQ_FILTER_READ) = Some (Task 1)"
proof -
  have reg: "registered pending_read_9 = [((9, KQ_FILTER_READ), Task 1)]"
    by (simp add: pending_read_9_simps)
  have h: "dict_contains (registered pending_read_9) (9, KQ_FILTER_READ)"
    by (simp add: reg dict_contains_def)
  have m: "map_of (registered pending_read_9) (9, KQ_FILTER_READ) = Some (Task 1)"
    by (simp add: reg)
  note t = duplicate_registration_rejected [OF h, of 2 cancel_kernel_interest]
  from t have c1: "wait_kevent 2 9 KQ_FILTER_READ cancel_kernel_interest pending_read_9 =
       (Inl (RuntimeError duplicate_message), pending_read_9)" by (rule conjunct1)
  from t have c2: "monitor_kevent_enter 9 KQ_FILTER_READ pending_read_9 =
       (Inl (RuntimeError duplicate_message), pending_read_9)" by blast
  from h c1 c2 m show ?thesis by (intro conjI)
qed

text \<open>
  Claim C5. Let \<open>abort\<close> be the callback that a successful \<^verbatim>\<open>wait_kevent\<close> handed to
  the scheduler for the key \<^verbatim>\<open>(ident, filter)\<close>, and let it be invoked while the
  registration is pending (the key is in the table when \<^verbatim>\<open>abort_func\<close> has returned
  the outcome \<open>r\<close>). Then the callback returns exactly \<open>r\<close>; when \<open>r\<close> is
  \<^verbatim>\<open>SUCCEEDED\<close> the key is deleted from the table, otherwise the state is the one
  \<^verbatim>\<open>abort_func\<close> left; so the key is gone afterwards if and only if \<open>r\<close> is
  \<^verbatim>\<open>SUCCEEDED\<close>.
\<close>

theorem abort_removes_iff_succeeded:
  assumes "wait_kevent current_task i f abort_func s0 = (Inr abort, s1)"
      and "abort_func raise_cancel s = (Inr r, s')"
      and "dict_contains (registered s') (i, f)"
  shows "abort raise_cancel s =
           (Inr r, if r = SUCCEEDED then s'\<lparr>registered := AList.delete (i, f) (registered s')\<rparr>
                   else s')
       \<and> (r = SUCCEEDED \<longleftrightarrow>
            \<not> dict_contains (registered (snd (abort raise_cancel s))) (i, f))"
proof -
  from assms(1) have ab: "abort = wait_kevent_abort (i, f) abort_func"
    by (auto simp: wait_kevent_def Let_def split: if_splits)
  from assms(3) obtain r0 where "map_of (registered s') (i, f) = Some r0"
    by (auto simp: dict_contains_def)
  with assms(2,3) show ?thesis
    by (simp add: ab wait_kevent_abort_def dict_delitem_def dict_contains_def delete_conv')
qed

theorem abort_removes_iff_succeeded_witness:
  "wait_kevent 1 9 KQ_FILTER_READ cancel_kernel_interest
       (kernel_submit (select_kevent 9 KQ_FILTER_READ (KQ_EV_ADD OR KQ_EV_ONESHOT))
          KqueueIOManager) =
     (Inr (wait_kevent_abort (9, KQ_FILTER_READ) cancel_kernel_interest), pending_read_9)
   \<and> fst (cancel_kernel_interest () pending_read_9) = Inr SUCCEEDED
   \<and> dict_contains (registered (snd (cancel_kernel_interest () pending_read_9))) (9, KQ_FILTER_READ)
   \<and> fst (wait_kevent_abort (9, KQ_FILTER_READ) cancel_kernel_interest () pending_read_9) =
       Inr SUCCEEDED
   \<and> \<not> dict_contains
         (registered (snd (wait_kevent_abort (9, KQ_FILTER_READ) cancel_kernel_interest ()
            pending_read_9))) (9, KQ_FILTER_READ)
   \<and> wait_kevent 1 9 KQ_FILTER_READ lose_race
       (kernel_submit (select_kevent 9 KQ_FILTER_READ (KQ_EV_ADD OR KQ_EV_ONESHOT))
          KqueueIOManager) =
       (Inr (wait_kevent_abort (9, KQ_FILTER_READ) lose_race), pending_read_9)
   \<and> lose_race () pending_read_9 = (Inr FAILED, pending_read_9)
   \<and> dict_contains (registered pending_read_9) (9, KQ_FILTER_READ)
   \<and> wait_kevent_abort (9, KQ_FILTER_READ) lose_race () pending_read_9 =
       (Inr FAILED, pending_read_9)"
proof -
  define s' where "s' = snd (cancel_kernel_interest () pending_read_9)"
  have h1: "wait_kevent 1 9 KQ_FILTER_READ cancel_kernel_interest
       (kernel_submit (select_kevent 9 KQ_FILTER_READ (KQ_EV_ADD OR KQ_EV_ONESHOT))
          KqueueIOManager) =
     (Inr (wait_kevent_abort (9, KQ_FILTER_READ) cancel_kernel_interest), pending_read_9)"
    by (rule pending_read_9_wait)
  have h2: "cancel_kernel_interest () pending_read_9 = (Inr SUCCEEDED, s')"
    by (simp add: s'_def cancel_kernel_interest_def wait_common_abort_def control_def Let_def)
  have h3: "dict_contains (registered s') (9, KQ_FILTER_READ)"
    by (simp add: s'_def cancel_kernel_interest_def wait_common_abort_def control_def Let_def
        pending_read_9_simps dict_contains_def)
  note t = abort_removes_iff_succeeded [OF h1 h2 h3]
  from t have c1: "fst (wait_kevent_abort (9, KQ_FILTER_READ) cancel_kernel_interest ()
      pending_read_9) = Inr SUCCEEDED" by simp
  from t have c2: "\<not> dict_contains
         (registered (snd (wait_kevent_abort (9, KQ_FILTER_READ) cancel_kernel_interest ()
            pending_read_9))) (9, KQ_FILTER_READ)" by blast
  from h2 have g2: "fst (cancel_kernel_interest () pending_read_9) = Inr SUCCEEDED" by simp
  from h3 have g3: "dict_contains (registered (snd (cancel_kernel_interest () pending_read_9)))
      (9, KQ_FILTER_READ)" by (simp add: s'_def)
  have k1: "wait_kevent 1 9 KQ_FILTER_READ lose_race
       (kernel_submit (select_kevent 9 KQ_FILTER_READ (KQ_EV_ADD OR KQ_EV_ONESHOT))
          KqueueIOManager) =
       (Inr (wait_kevent_abort (9, KQ_FILTER_READ) lose_race), pending_read_9)"
    by (rule pending_read_9_wait)
  have k2: "lose_race () pending_read_9 = (Inr FAILED, pending_read_9)"
    by (simp add: lose_race_def)
  have k3: "dict_contains (registered pending_read_9) (9, KQ_FILTER_READ)"
    by (simp add: pending_read_9_simps dict_contains_def)
  from abort_removes_iff_succeeded [OF k1 k2 k3]
  have c3: "wait_kevent_abort (9, KQ_FILTER_READ) lose_race () pending_read_9 =
       (Inr FAILED, pending_read_9)" by simp
  from h1 g2 g3 c1 c2 k1 k2 k3 c3 show ?thesis by (intro conjI)
qed

text \<open>
  Claim C8. For a key that is not registered, \<^verbatim>\<open>monitor_kevent\<close> allocates a new, empty
  queue, stores it in the table under the key and hands it to the block. However the block
  is left, by a value or by an exception, and whatever state it leaves, the \<^verbatim>\<open>finally\<close>
  clause runs and the key is not in the table afterwards; when the registration is still
  there at that moment, it is deleted and the outcome of the block is passed on unchanged.
\<close>

theorem monitor_scope_removes_registration:
  assumes "\<not> dict_contains (registered s) (i, f)"
  shows "\<exists>q s1. monitor_kevent_enter i f s = (Inr q, s1)
           \<and> map_of (registered s1) (i, f) = Some (Queue q)
           \<and> queues s1 q = []
           \<and> monitor_kevent i f body s = monitor_kevent_exit i f (body q s1)
           \<and> \<not> dict_contains (registered (snd (monitor_kevent i f body s))) (i, f)
           \<and> \<not> dict_contains (registered (snd (monitor_kevent_exit i f (outcome, s2)))) (i, f)
           \<and> (dict_contains (registered s2) (i, f) \<longrightarrow>
                monitor_kevent_exit i f (outcome, s2) =
                  (outcome, s2\<lparr>registered := AList.delete (i, f) (registered s2)\<rparr>))"
proof -
  have gone: "\<not> dict_contains (registered (snd (monitor_kevent_exit i f r))) (i, f)" for r :: "'c result"
    by (cases r) (auto simp: monitor_kevent_exit_def dict_delitem_def dict_contains_def
        map_of_delete_self split: option.splits)
  have kept: "dict_contains (registered s2) (i, f) \<longrightarrow>
      monitor_kevent_exit i f (outcome, s2) =
        (outcome, s2\<lparr>registered := AList.delete (i, f) (registered s2)\<rparr>)"
    by (auto simp: monitor_kevent_exit_def dict_delitem_def dict_contains_def)
  define q where "q = next_queue s"
  define s1 where "s1 = snd (monitor_kevent_enter i f s)"
  have enter: "monitor_kevent_enter i f s = (Inr q, s1)"
    using assms by (simp add: s1_def q_def monitor_kevent_enter_def UnboundedQueue_def Let_def)
  have reg: "map_of (registered s1) (i, f) = Some (Queue q)"
    using assms
    by (simp add: s1_def q_def monitor_kevent_enter_def UnboundedQueue_def Let_def update_conv')
  have empty: "queues s1 q = []"
    using assms by (simp add: s1_def q_def monitor_kevent_enter_def UnboundedQueue_def Let_def)
  have whole: "monitor_kevent i f body s = monitor_kevent_exit i f (body q s1)"
    by (simp add: monitor_kevent_def enter)
  from enter reg empty whole gone [of "body q s1"] gone [of "(outcome, s2)"] kept
  show ?thesis by auto
qed

theorem monitor_scope_removes_registration_witness:
  "\<not> dict_contains (registered KqueueIOManager) (3, KQ_FILTER_WRITE)
   \<and> fst (monitor_kevent_enter 3 KQ_FILTER_WRITE KqueueIOManager) = Inr 0
   \<and> map_of (registered (snd (monitor_kevent_enter 3 KQ_FILTER_WRITE KqueueIOManager)))
        (3, KQ_FILTER_WRITE) = Some (Queue 0)
   \<and> fst (monitor_kevent 3 KQ_FILTER_WRITE failing_body KqueueIOManager) =
        Inl (AttributeError ''body'')
   \<and> \<not> dict_contains
         (registered (snd (monitor_kevent 3 KQ_FILTER_WRITE failing_body KqueueIOManager)))
         (3, KQ_FILTER_WRITE)"
proof -
  have h: "\<not> dict_contains (registered KqueueIOManager) (3, KQ_FILTER_WRITE)"
    by (simp add: KqueueIOManager_def dict_contains_def)
  have e: "fst (monitor_kevent_enter 3 KQ_FILTER_WRITE KqueueIOManager) = Inr 0"
    by (simp add: monitor_kevent_enter_def KqueueIOManager_def dict_contains_def
        UnboundedQueue_def Let_def)
  have m: "map_of (registered (snd (monitor_kevent_enter 3 KQ_FILTER_WRITE KqueueIOManager)))
        (3, KQ_FILTER_WRITE) = Some (Queue 0)"
    by (simp add: monitor_kevent_enter_def KqueueIOManager_def dict_contains_def
        UnboundedQueue_def Let_def)
  have o: "fst (monitor_kevent 3 KQ_FILTER_WRITE failing_body KqueueIOManager) =
        Inl (AttributeError ''body'')"
    by (simp add: monitor_kevent_def monitor_kevent_enter_def KqueueIOManager_def
        dict_contains_def UnboundedQueue_def Let_def failing_body_def monitor_kevent_exit_def
        dict_delitem_def)
  from monitor_scope_removes_registration [OF h, of failing_body]
  have c: "\<not> dict_contains
         (registered (snd (monitor_kevent 3 KQ_FILTER_WRITE failing_body KqueueIOManager)))
         (3, KQ_FILTER_WRITE)" by blast
  from h e m o c show ?thesis by (intro conjI)
qed

subsection \<open>Waiting on a file descriptor\<close>

text \<open>
  Claim C10. \<^verbatim>\<open>wait_readable\<close> and \<^verbatim>\<open>wait_writable\<close>, called with an object whose
  \<^verbatim>\<open>fileno()\<close> is \<open>n\<close> or with the integer \<open>n\<close> itself, submit to the kernel one
  change, a one-shot \<^verbatim>\<open>kevent\<close> whose \<^verbatim>\<open>ident\<close> is \<open>n\<close>, and then go on as
  \<^verbatim>\<open>wait_kevent(n, filter, abort)\<close>: when the key \<open>(n, filter)\<close> is free, the calling task
  is registered under that key.
\<close>

theorem wait_identity_is_fileno:
  assumes "fd = FileObj n \<or> fd = IntFd n"
  shows "(wait_readable current_task fd s :: ('c abort_fn) result) =
           wait_kevent current_task n KQ_FILTER_READ (wait_common_abort n KQ_FILTER_READ)
             (kernel_submit (select_kevent n KQ_FILTER_READ (KQ_EV_ADD OR KQ_EV_ONESHOT)) s)
       \<and> (wait_writable current_task fd s :: ('c abort_fn) result) =
           wait_kevent current_task n KQ_FILTER_WRITE (wait_common_abort n KQ_FILTER_WRITE)
             (kernel_submit (select_kevent n KQ_FILTER_WRITE (KQ_EV_ADD OR KQ_EV_ONESHOT)) s)
       \<and> submitted (kqueue (snd (wait_readable current_task fd s :: ('c abort_fn) result))) =
           submitted (kqueue s) @ [select_kevent n KQ_FILTER_READ (KQ_EV_ADD OR KQ_EV_ONESHOT)]
       \<and> submitted (kqueue (snd (wait_writable current_task fd s :: ('c abort_fn) result))) =
           submitted (kqueue s) @ [select_kevent n KQ_FILTER_WRITE (KQ_EV_ADD OR KQ_EV_ONESHOT)]
       \<and> ident (select_kevent n f (KQ_EV_ADD OR KQ_EV_ONESHOT)) = n
       \<and> oneshot (select_kevent n f (KQ_EV_ADD OR KQ_EV_ONESHOT))
       \<and> (\<not> dict_contains (registered s) (n, KQ_FILTER_READ) \<longrightarrow>
            map_of (registered (snd (wait_readable current_task fd s :: ('c abort_fn) result)))
              (n, KQ_FILTER_READ) = Some (Task current_task))
       \<and> (\<not> dict_contains (registered s) (n, KQ_FILTER_WRITE) \<longrightarrow>
            map_of (registered (snd (wait_writable current_task fd s :: ('c abort_fn) result)))
              (n, KQ_FILTER_WRITE) = Some (Task current_task))"
proof -
  have common: "wait_common current_task fd g s =
      (wait_kevent current_task n g (wait_common_abort n g)
        (kernel_submit (select_kevent n g (KQ_EV_ADD OR KQ_EV_ONESHOT)) s) :: ('c abort_fn) result)"
    for g
    using assms by (auto simp: wait_common_def fileno_def kernel_submit_def Let_def
        split: prod.splits)
  have sub: "submitted (kqueue (snd (wait_kevent current_task n g af (kernel_submit ev s)))) =
      submitted (kqueue s) @ [ev]" for g ev and af :: "'c abort_fn"
    by (simp add: wait_kevent_def kernel_submit_def control_def Let_def)
  have reg: "\<not> dict_contains (registered s) (n, g) \<longrightarrow>
      map_of (registered (snd (wait_kevent current_task n g af (kernel_submit ev s)))) (n, g) =
        Some (Task current_task)" for g ev and af :: "'c abort_fn"
    by (simp add: wait_kevent_def kernel_submit_def control_def Let_def update_conv')
  have one: "oneshot (select_kevent n f (KQ_EV_ADD OR KQ_EV_ONESHOT))"
    by (simp add: oneshot_def select_kevent_def KQ_EV_ADD_def KQ_EV_ONESHOT_def)
  have idn: "ident (select_kevent n f (KQ_EV_ADD OR KQ_EV_ONESHOT)) = n"
    by (simp add: select_kevent_def)
  show ?thesis
    unfolding wait_readable_def wait_writable_def common
    using sub reg one idn by simp
qed

theorem wait_identity_is_fileno_witness:
  "(FileObj 5 = FileObj 5 \<or> FileObj 5 = IntFd 5)
   \<and> \<not> dict_contains (registered KqueueIOManager) (5, KQ_FILTER_READ)
   \<and> submitted (kqueue (snd (wait_readable 1 (FileObj 5) KqueueIOManager
          :: (unit abort_fn) result))) =
       [select_kevent 5 KQ_FILTER_READ (KQ_EV_ADD OR KQ_EV_ONESHOT)]
   \<and> map_of (registered (snd (wait_readable 1 (FileObj 5) KqueueIOManager
          :: (unit abort_fn) result))) (5, KQ_FILTER_READ) = Some (Task 1)"
proof -
  have h: "FileObj 5 = FileObj 5 \<or> FileObj 5 = IntFd 5" by simp
  have n: "\<not> dict_contains (registered KqueueIOManager) (5, KQ_FILTER_READ)"
    by (simp add: KqueueIOManager_def dict_contains_def)
  have e: "submitted (kqueue KqueueIOManager) = []"
    by (simp add: KqueueIOManager_def select_kqueue_def)
  note t = wait_identity_is_fileno [OF h, of 1 KqueueIOManager, where ?'c = unit and f = 0]
  from t have "submitted (kqueue (snd (wait_readable 1 (FileObj 5) KqueueIOManager
          :: (unit abort_fn) result))) =
       submitted (kqueue KqueueIOManager) @
         [select_kevent 5 KQ_FILTER_READ (KQ_EV_ADD OR KQ_EV_ONESHOT)]" by blast
  with e have c1: "submitted (kqueue (snd (wait_readable 1 (FileObj 5) KqueueIOManager
          :: (unit abort_fn) result))) =
       [select_kevent 5 KQ_FILTER_READ (KQ_EV_ADD OR KQ_EV_ONESHOT)]" by simp
  from t n have c2: "map_of (registered (snd (wait_readable 1 (FileObj 5) KqueueIOManager
          :: (unit abort_fn) result))) (5, KQ_FILTER_READ) = Some (Task 1)" by blast
  from h n c1 c2 show ?thesis by (intro conjI)
qed

subsection \<open>What a run of \<^verbatim>\<open>handle_io\<close> delivers\<close>

lemma dispatch_events_registered:
  "dispatch_events evs s = (Inr u, s') \<Longrightarrow> e \<in> set evs \<Longrightarrow>
   map_of (registered s) (key_of e) \<noteq> None"
proof (induction evs arbitrary: s)
  case Nil
  then show ?case by simp
next
  case (Cons a evs)
  show ?case
  proof (cases "map_of (registered s) (key_of a)")
    case None
    with Cons.prems show ?thesis by (simp add: dispatch_event_missing)
  next
    case (Some r0)
    define s1 where "s1 = snd (dispatch_event a s)"
    have a: "dispatch_event a s = (Inr (), s1)"
      using Some by (simp add: s1_def dispatch_event_found)
    with Cons.prems have rest: "dispatch_events evs s1 = (Inr u, s')" by simp
    show ?thesis
    proof (cases "e = a")
      case True
      with Some show ?thesis by simp
    next
      case False
      with Cons.prems have "e \<in> set evs" by simp
      from Cons.IH [OF rest this] obtain r where "map_of (registered s1) (key_of e) = Some r"
        by blast
      from dispatch_event_shrinks [OF a this] show ?thesis by simp
    qed
  qed
qed

lemma resumed_cong:
  "(\<And>e. e \<in> set evs \<Longrightarrow> map_of d (key_of e) = map_of d' (key_of e)) \<Longrightarrow>
   resumed d evs = resumed d' evs"
  unfolding resumed_def by (induction evs) simp_all

lemma pushed_cong:
  "(\<And>e. e \<in> set evs \<Longrightarrow> map_of d (key_of e) = map_of d' (key_of e)) \<Longrightarrow>
   pushed d q evs = pushed d' q evs"
  unfolding pushed_def by (induction evs) simp_all

text \<open>
  A run that raises nothing has handed every event, in order, to the receiver the table
  held for its key when the run began.
\<close>

lemma dispatch_events_deliveries:
  "dispatch_events evs s = (Inr u, s') \<Longrightarrow>
   runq s' = runq s @ resumed (registered s) evs \<and>
   queues s' q = queues s q @ pushed (registered s) q evs \<and>
   kqueue s' = kqueue s \<and> next_queue s' = next_queue s"
proof (induction evs arbitrary: s)
  case Nil
  then show ?case by (simp add: resumed_def pushed_def)
next
  case (Cons a evs)
  show ?case
  proof (cases "map_of (registered s) (key_of a)")
    case None
    with Cons.prems show ?thesis by (simp add: dispatch_event_missing)
  next
    case (Some r0)
    define d1 where "d1 = (if oneshot a then AList.delete (key_of a) (registered s)
                            else registered s)"
    define s1 where "s1 = deliver r0 a (s\<lparr>registered := d1\<rparr>)"
    have a: "dispatch_event a s = (Inr (), s1)"
      using Some by (simp add: s1_def d1_def dispatch_event_found)
    with Cons.prems have rest: "dispatch_events evs s1 = (Inr u, s')" by simp
    have reg1: "registered s1 = d1" by (simp add: s1_def)
    have same: "map_of d1 (key_of e) = map_of (registered s) (key_of e)" if "e \<in> set evs" for e
    proof -
      from dispatch_events_registered [OF rest that] reg1
      obtain r where r: "map_of d1 (key_of e) = Some r" by auto
      then have "map_of (registered s) (key_of e) = Some r"
        by (auto simp: d1_def split: if_splits dest: map_of_delete_Some)
      with r show ?thesis by simp
    qed
    have res: "resumed d1 evs = resumed (registered s) evs"
      by (rule resumed_cong) (rule same)
    have pus: "pushed d1 q evs = pushed (registered s) q evs"
      by (rule pushed_cong) (rule same)
    from Cons.IH [OF rest] reg1 res pus
    have ih: "runq s' = runq s1 @ resumed (registered s) evs"
      "queues s' q = queues s1 q @ pushed (registered s) q evs"
      "kqueue s' = kqueue s1" "next_queue s' = next_queue s1" by simp_all
    show ?thesis
    proof (cases r0)
      case (Task t)
      with ih Some show ?thesis
        by (simp add: s1_def deliver_def reschedule_def resumed_def pushed_def)
    next
      case (Queue q0)
      with ih Some show ?thesis
        by (simp add: s1_def deliver_def put_nowait_def resumed_def pushed_def)
    qed
  qed
qed

text \<open>A registration stays as long as no one-shot event arrives for its key.\<close>

lemma dispatch_events_keeps:
  "dispatch_events evs s = (res, s') \<Longrightarrow> map_of (registered s) k = Some r \<Longrightarrow>
   (\<And>e. e \<in> set evs \<Longrightarrow> key_of e = k \<Longrightarrow> \<not> oneshot e) \<Longrightarrow>
   map_of (registered s') k = Some r"
proof (induction evs arbitrary: s)
  case Nil
  then show ?case by simp
next
  case (Cons a evs)
  show ?case
  proof (cases "map_of (registered s) (key_of a)")
    case None
    with Cons.prems show ?thesis by (simp add: dispatch_event_missing)
  next
    case (Some r0)
    define s1 where "s1 = snd (dispatch_event a s)"
    have a: "dispatch_event a s = (Inr (), s1)"
      using Some by (simp add: s1_def dispatch_event_found)
    with Cons.prems have rest: "dispatch_events evs s1 = (res, s')" by simp
    have "map_of (registered s1) k = Some r"
    proof (cases "key_of a = k")
      case True
      with Cons.prems(3) [of a] have "\<not> oneshot a" by simp
      with Some Cons.prems(2) show ?thesis by (simp add: s1_def dispatch_event_found)
    next
      case False
      with Some Cons.prems(2) show ?thesis by (simp add: s1_def dispatch_event_found)
    qed
    from Cons.IH [OF rest this] Cons.prems(3) show ?thesis by simp
  qed
qed

text \<open>
  A run over events one of which has no registration when the run begins: the run stops at
  the first event that finds no registration, with the \<^verbatim>\<open>KeyError\<close> of that event's
  key, and the event in question is that event or a later one.
\<close>

lemma dispatch_events_missing:
  assumes "event \<in> set evs" and "map_of (registered s) (key_of event) = None"
  shows "\<exists>pre e post s1. evs = pre @ e # post
           \<and> dispatch_events pre s = (Inr (), s1)
           \<and> map_of (registered s1) (key_of e) = None
           \<and> event \<in> set (e # post)
           \<and> dispatch_events evs s = (Inl (KeyError (key_of e)), s1)"
proof -
  from dispatch_events_cases [of evs s] show ?thesis
  proof
    assume "\<exists>s'. dispatch_events evs s = (Inr (), s')"
    then obtain s' where "dispatch_events evs s = (Inr (), s')" ..
    from dispatch_events_registered [OF this assms(1)] assms(2) show ?thesis by simp
  next
    assume "\<exists>pre e post s1. evs = pre @ e # post \<and>
      dispatch_events pre s = (Inr (), s1) \<and> map_of (registered s1) (key_of e) = None \<and>
      dispatch_events evs s = (Inl (KeyError (key_of e)), s1)"
    then obtain pre e post s1 where c: "evs = pre @ e # post"
      "dispatch_events pre s = (Inr (), s1)" "map_of (registered s1) (key_of e) = None"
      "dispatch_events evs s = (Inl (KeyError (key_of e)), s1)" by blast
    have "event \<notin> set pre"
    proof
      assume "event \<in> set pre"
      from dispatch_events_registered [OF c(2) this] assms(2) show False by simp
    qed
    with assms(1) c(1) have "event \<in> set (e # post)" by auto
    with c show ?thesis by blast
  qed
qed

subsection \<open>Polling and draining\<close>

lemma delivered_to_receiver:
  assumes "dispatch_events evs s = (Inr u, s')" and "e \<in> set evs"
  shows "case map_of (registered s) (key_of e) of
           None \<Rightarrow> False
         | Some (Task tk) \<Rightarrow> (tk, e) \<in> set (drop (length (runq s)) (runq s'))
         | Some (Queue q) \<Rightarrow> e \<in> set (drop (length (queues s q)) (queues s' q))"
proof (cases "map_of (registered s) (key_of e)")
  case None
  with dispatch_events_registered [OF assms] show ?thesis by simp
next
  case (Some r)
  show ?thesis
  proof (cases r)
    case (Task tk)
    from assms(2) Some Task have "(tk, e) \<in> set (resumed (registered s) evs)"
      by (auto simp: resumed_def intro!: bexI [of _ e])
    with dispatch_events_deliveries [OF assms(1)] Some Task show ?thesis by simp
  next
    case (Queue q)
    from assms(2) Some Queue have "e \<in> set (pushed (registered s) q evs)"
      by (simp add: pushed_def)
    with dispatch_events_deliveries [OF assms(1), of q] Some Queue show ?thesis by simp
  qed
qed

text \<open>
  Claim C3. \<^verbatim>\<open>handle_io\<close> polls the kernel with capacity \<^verbatim>\<open>len(_registered) + 1\<close>,
  which is positive, in every round. The polls it makes are: one with the caller's timeout,
  then one with timeout 0 for every batch that came back full; the loop ends with the first
  batch that is shorter than the capacity (a round with a short batch returns, a round with
  a full batch goes on with timeout 0). It always leaves the loop, with all ready events
  accumulated in order, and runs the dispatch loop over all of them; when \<^verbatim>\<open>handle_io\<close>
  returns without an exception, every one of these events has been handed to the receiver
  registered for its key.
\<close>

theorem handle_io_polling:
  "poll_loop (length (registered s) + 1) t [] (kqueue s) =
     Some (ready (kqueue s), drained (length (registered s) + 1) t (kqueue s))
   \<and> handle_io t s =
       Some (dispatch_events (ready (kqueue s))
               (s\<lparr>kqueue := drained (length (registered s) + 1) t (kqueue s)\<rparr>))
   \<and> polls (drained (length (registered s) + 1) t (kqueue s)) =
       polls (kqueue s) @ (length (registered s) + 1, t) #
         replicate (length (ready (kqueue s)) div (length (registered s) + 1))
           (length (registered s) + 1, Some 0)
   \<and> ready (drained (length (registered s) + 1) t (kqueue s)) = []
   \<and> 0 < length (registered s) + 1
   \<and> (length (fst (control kq [] m t1)) < m \<longrightarrow>
        poll_loop m t1 evs kq = Some (evs @ fst (control kq [] m t1), snd (control kq [] m t1)))
   \<and> (length (fst (control kq' [] m' t2)) = m' \<longrightarrow>
        poll_loop m' t2 evs' kq' =
          poll_loop m' (Some 0) (evs' @ fst (control kq' [] m' t2)) (snd (control kq' [] m' t2)))
   \<and> (\<forall>s'. handle_io t s = Some (Inr (), s') \<longrightarrow>
        (\<forall>e\<in>set (ready (kqueue s)).
           case map_of (registered s) (key_of e) of
             None \<Rightarrow> False
           | Some (Task tk) \<Rightarrow> (tk, e) \<in> set (drop (length (runq s)) (runq s'))
           | Some (Queue q) \<Rightarrow> e \<in> set (drop (length (queues s q)) (queues s' q))))"
proof -
  have short: "length (fst (control kq [] m t1)) < m \<longrightarrow>
      poll_loop m t1 evs kq = Some (evs @ fst (control kq [] m t1), snd (control kq [] m t1))"
    by (subst poll_loop.simps) (simp add: split_beta)
  have full: "length (fst (control kq' [] m' t2)) = m' \<longrightarrow>
      poll_loop m' t2 evs' kq' =
        poll_loop m' (Some 0) (evs' @ fst (control kq' [] m' t2)) (snd (control kq' [] m' t2))"
    by (subst poll_loop.simps) (simp add: split_beta)
  have all: "\<forall>s'. handle_io t s = Some (Inr (), s') \<longrightarrow>
        (\<forall>e\<in>set (ready (kqueue s)).
           case map_of (registered s) (key_of e) of
             None \<Rightarrow> False
           | Some (Task tk) \<Rightarrow> (tk, e) \<in> set (drop (length (runq s)) (runq s'))
           | Some (Queue q) \<Rightarrow> e \<in> set (drop (length (queues s q)) (queues s' q)))"
  proof (intro allI impI ballI)
    fix s' e
    assume "handle_io t s = Some (Inr (), s')" and e: "e \<in> set (ready (kqueue s))"
    then have "dispatch_events (ready (kqueue s))
        (s\<lparr>kqueue := drained (length (registered s) + 1) t (kqueue s)\<rparr>) = (Inr (), s')"
      by (simp add: handle_io_eq)
    from delivered_to_receiver [OF this e]
    show "case map_of (registered s) (key_of e) of
             None \<Rightarrow> False
           | Some (Task tk) \<Rightarrow> (tk, e) \<in> set (drop (length (runq s)) (runq s'))
           | Some (Queue q) \<Rightarrow> e \<in> set (drop (length (queues s q)) (queues s' q))"
      by (simp split: option.splits receiver.splits)
  qed
  have closed: "poll_loop (length (registered s) + 1) t [] (kqueue s) =
     Some (ready (kqueue s), drained (length (registered s) + 1) t (kqueue s))"
    using poll_loop_drains [of "length (registered s) + 1" t "[]" "kqueue s"] by simp
  have pl: "polls (drained (length (registered s) + 1) t (kqueue s)) =
       polls (kqueue s) @ (length (registered s) + 1, t) #
         replicate (length (ready (kqueue s)) div (length (registered s) + 1))
           (length (registered s) + 1, Some 0)"
    by (simp add: drained_def)
  have rd: "ready (drained (length (registered s) + 1) t (kqueue s)) = []"
    by (simp add: drained_def)
  from closed handle_io_eq [of t s] pl rd short full all show ?thesis by (intro conjI) simp_all
qed

theorem handle_io_polling_witness:
  "length (registered three_writes) + 1 = 2
   \<and> length (ready (kqueue three_writes)) = 3
   \<and> fst (the (handle_io (Some 5) three_writes)) = Inr ()
   \<and> polls (kqueue (snd (the (handle_io (Some 5) three_writes)))) = [(2, Some 5), (2, Some 0)]
   \<and> queues (snd (the (handle_io (Some 5) three_writes))) 0 =
       [write_event 1, write_event 2, write_event 3]
   \<and> length (fst (control (kqueue three_writes) [] 2 (Some 5))) = 2
   \<and> poll_loop 2 (Some 5) [] (kqueue three_writes) =
       poll_loop 2 (Some 0) [write_event 1, write_event 2]
         (snd (control (kqueue three_writes) [] 2 (Some 5)))
   \<and> length (fst (control (snd (control (kqueue three_writes) [] 2 (Some 5))) [] 2 (Some 0))) < 2
   \<and> poll_loop 2 (Some 0) [write_event 1, write_event 2]
         (snd (control (kqueue three_writes) [] 2 (Some 5))) =
       Some ([write_event 1, write_event 2, write_event 3],
             snd (control (snd (control (kqueue three_writes) [] 2 (Some 5))) [] 2 (Some 0)))"
proof -
  define kq1 where "kq1 = snd (control (kqueue three_writes) [] 2 (Some 5))"
  note t = handle_io_polling [of three_writes "Some 5" kq1 2 "Some 0"
      "[write_event 1, write_event 2]" "kqueue three_writes" 2 "Some 5" "[]"]
  have n: "length (registered three_writes) + 1 = 2" by (simp add: three_writes_simps)
  have r: "length (ready (kqueue three_writes)) = 3" by (simp add: three_writes_simps)
  have b1: "fst (control (kqueue three_writes) [] 2 (Some 5)) = [write_event 1, write_event 2]"
    by (simp add: control_def three_writes_simps)
  have b2: "fst (control kq1 [] 2 (Some 0)) = [write_event 3]"
    by (simp add: kq1_def control_def three_writes_simps)
  have h1: "length (fst (control (kqueue three_writes) [] 2 (Some 5))) = 2" by (simp add: b1)
  have h2: "length (fst (control kq1 [] 2 (Some 0))) < 2" by (simp add: b2)
  from t h1 b1 have c1: "poll_loop 2 (Some 5) [] (kqueue three_writes) =
       poll_loop 2 (Some 0) [write_event 1, write_event 2] kq1"
    unfolding kq1_def by simp
  from t h2 b2 have c2: "poll_loop 2 (Some 0) [write_event 1, write_event 2] kq1 =
       Some ([write_event 1, write_event 2, write_event 3], snd (control kq1 [] 2 (Some 0)))"
    by simp
  define s0 where "s0 = three_writes\<lparr>kqueue :=
      drained (length (registered three_writes) + 1) (Some 5) (kqueue three_writes)\<rparr>"
  from t have h: "handle_io (Some 5) three_writes =
       Some (dispatch_events (ready (kqueue three_writes)) s0)"
    unfolding s0_def by blast
  have d: "dispatch_events (ready (kqueue three_writes)) s0 =
    (Inr (), put_nowait 0 (write_event 3) (put_nowait 0 (write_event 2)
       (put_nowait 0 (write_event 1) s0)))"
    by (simp add: s0_def three_writes_simps dispatch_event_found write_event_simps
      deliver_def put_nowait_def)
  from h d have o: "fst (the (handle_io (Some 5) three_writes)) = Inr ()" by simp
  have "polls (kqueue s0) =
      polls (kqueue three_writes) @ (2, Some 5) # replicate (3 div 2) (2, Some 0)"
    unfolding s0_def drained_def n r by simp
  moreover have "(3::nat) div 2 = 1" by simp
  ultimately have pl: "polls (kqueue s0) = [(2, Some 5), (2, Some 0)]"
    by (simp add: three_writes_simps)
  from h d pl have p: "polls (kqueue (snd (the (handle_io (Some 5) three_writes)))) =
      [(2, Some 5), (2, Some 0)]"
    by (simp add: put_nowait_def)
  from h d have q: "queues (snd (the (handle_io (Some 5) three_writes))) 0 =
       [write_event 1, write_event 2, write_event 3]"
    by (simp add: s0_def put_nowait_def three_writes_simps)
  from n r o p q h1 c1 h2 c2 show ?thesis unfolding kq1_def by (intro conjI)
qed

subsection \<open>Events without a registration\<close>

text \<open>
  Claim C6. When \<^verbatim>\<open>handle_io\<close> retrieves an event whose key has no entry in the
  registration table, it does not return normally: the dispatch loop runs up to the first
  event that finds no registration, and the \<^verbatim>\<open>KeyError\<close> for that event's key leaves
  \<^verbatim>\<open>handle_io\<close>, with the state the loop had reached. The event in question is that
  event or a later one, so it is never passed over in silence.
\<close>

theorem missing_registration_raises:
  assumes "event \<in> set (ready (kqueue s))"
      and "\<not> dict_contains (registered s) (key_of event)"
  shows "\<exists>pre e post s1. ready (kqueue s) = pre @ e # post
           \<and> dispatch_events pre
                (s\<lparr>kqueue := drained (length (registered s) + 1) t (kqueue s)\<rparr>) = (Inr (), s1)
           \<and> \<not> dict_contains (registered s1) (key_of e)
           \<and> event \<in> set (e # post)
           \<and> handle_io t s = Some (Inl (KeyError (key_of e)), s1)"
proof -
  define s0 where "s0 = s\<lparr>kqueue := drained (length (registered s) + 1) t (kqueue s)\<rparr>"
  have run: "handle_io t s = Some (dispatch_events (ready (kqueue s)) s0)"
    by (simp add: handle_io_eq s0_def)
  from assms(2) have "map_of (registered s0) (key_of event) = None"
    by (simp add: dict_contains_def s0_def)
  from dispatch_events_missing [OF assms(1) this]
  obtain pre e post s1 where c: "ready (kqueue s) = pre @ e # post"
    "dispatch_events pre s0 = (Inr (), s1)" "map_of (registered s1) (key_of e) = None"
    "event \<in> set (e # post)"
    "dispatch_events (ready (kqueue s)) s0 = (Inl (KeyError (key_of e)), s1)" by blast
  from c(3) have "\<not> dict_contains (registered s1) (key_of e)"
    by (simp add: dict_contains_def)
  with c(1,2,4,5) run show ?thesis
    unfolding s0_def by auto
qed

theorem missing_registration_raises_witness:
  "write_event 1 \<in> set (ready (kqueue stray_event))
   \<and> \<not> dict_contains (registered stray_event) (key_of (write_event 1))
   \<and> fst (the (handle_io (Some 0) stray_event)) = Inl (KeyError (3, KQ_FILTER_WRITE))
   \<and> runq (snd (the (handle_io (Some 0) stray_event))) = []"
proof -
  have h1: "write_event 1 \<in> set (ready (kqueue stray_event))"
    by (simp add: stray_event_simps)
  have h2: "\<not> dict_contains (registered stray_event) (key_of (write_event 1))"
    by (simp add: stray_event_simps write_event_simps dict_contains_def KQ_FILTER_WRITE_def)
  from missing_registration_raises [OF h1 h2, of "Some 0"]
  obtain pre e post s1 where c: "ready (kqueue stray_event) = pre @ e # post"
    "dispatch_events pre
       (stray_event\<lparr>kqueue := drained (length (registered stray_event) + 1) (Some 0)
          (kqueue stray_event)\<rparr>) = (Inr (), s1)"
    "handle_io (Some 0) stray_event = Some (Inl (KeyError (key_of e)), s1)" by blast
  from c(1) have pre: "pre = []" and e: "e = write_event 1"
    by (simp_all add: stray_event_simps Cons_eq_append_conv)
  from c(2) pre have s1: "runq s1 = []"
    by (auto simp: stray_event_def kernel_fires_def pending_read_9_simps)
  from c(3) e have o: "fst (the (handle_io (Some 0) stray_event)) = Inl (KeyError (3, KQ_FILTER_WRITE))"
    by (simp add: write_event_simps)
  from c(3) s1 have r: "runq (snd (the (handle_io (Some 0) stray_event))) = []" by simp
  from h1 h2 o r show ?thesis by (intro conjI)
qed

subsection \<open>One-shot events\<close>

text \<open>
  Claim C1 says that for every one-shot event the receiver is resumed or pushed exactly
  once for that registration. A registration can have received events before its one-shot
  event: with a monitor on \<^verbatim>\<open>(3, KQ_FILTER_WRITE)\<close> and two ready events for that
  key, the first without the flag and the second with it, \<^verbatim>\<open>handle_io\<close> returns
  normally, the key is gone, and the queue registered under the key has been pushed to
  twice.
\<close>

theorem oneshot_after_plain_counterexample:
  "map_of (registered plain_then_oneshot) (3, KQ_FILTER_WRITE) = Some (Queue 0)
   \<and> ready (kqueue plain_then_oneshot) = [write_event 1, oneshot_write]
   \<and> key_of (write_event 1) = (3, KQ_FILTER_WRITE)
   \<and> key_of oneshot_write = (3, KQ_FILTER_WRITE)
   \<and> oneshot oneshot_write
   \<and> fst (the (handle_io (Some 0) plain_then_oneshot)) = Inr ()
   \<and> queues (snd (the (handle_io (Some 0) plain_then_oneshot))) 0 =
       [write_event 1, oneshot_write]
   \<and> length (queues (snd (the (handle_io (Some 0) plain_then_oneshot))) 0) = 2
   \<and> \<not> dict_contains (registered (snd (the (handle_io (Some 0) plain_then_oneshot))))
         (3, KQ_FILTER_WRITE)"
  by (simp add: handle_io_eq plain_then_oneshot_simps oneshot_write_simps write_event_simps
      dispatch_event_found deliver_def put_nowait_def dict_contains_def delete_conv')

text \<open>
  Claim C1, amended. Take any event with the one-shot flag that \<^verbatim>\<open>handle_io\<close> comes to
  process: the events before it were dispatched, and the table holds the receiver \<open>r\<close>
  under the event's key. Then the body of the loop passes through two states: after the
  \<^verbatim>\<open>del\<close> the key is absent and nothing has been delivered yet; only then the event is
  handed to \<open>r\<close>. The step performs exactly one delivery (one more entry on the run
  queue for a task, one more element in the queue for a monitor, nothing else); the key is
  absent after the step and is still absent when \<^verbatim>\<open>handle_io\<close> ends, however it ends.
  No later event of the same call is delivered under the removed registration: if the
  call returns normally, no later event had this key. The registration was in the table
  with the same receiver when the call began, and an earlier event of the call with the
  same key cannot have carried the one-shot flag. When the call returns normally, the
  deliveries it made for this key are, in order, one for every earlier event with the key
  and one for this event, all to \<open>r\<close>; so the receiver is resumed or pushed exactly once
  under the registration when the one-shot event is the first event for its key.
\<close>

theorem oneshot_event_removed_then_delivered:
  assumes "ready (kqueue s) = pre @ event # post"
      and "dispatch_events pre
             (s\<lparr>kqueue := drained (length (registered s) + 1) t (kqueue s)\<rparr>) = (Inr (), s1)"
      and "map_of (registered s1) (key_of event) = Some r"
      and "oneshot event"
  shows "dispatch_event_steps event s1 =
           (Inr (),
            [s1\<lparr>registered := AList.delete (key_of event) (registered s1)\<rparr>,
             deliver r event
               (s1\<lparr>registered := AList.delete (key_of event) (registered s1)\<rparr>)])
       \<and> dispatch_event event s1 =
           (fst (dispatch_event_steps event s1), last (s1 # snd (dispatch_event_steps event s1)))
       \<and> runq (hd (snd (dispatch_event_steps event s1))) = runq s1
       \<and> queues (hd (snd (dispatch_event_steps event s1))) = queues s1
       \<and> \<not> dict_contains (registered (hd (snd (dispatch_event_steps event s1)))) (key_of event)
       \<and> dispatch_event event s1 =
           (Inr (), deliver r event
              (s1\<lparr>registered := AList.delete (key_of event) (registered s1)\<rparr>))
       \<and> \<not> dict_contains
             (registered (s1\<lparr>registered := AList.delete (key_of event) (registered s1)\<rparr>))
             (key_of event)
       \<and> (case r of
             Task tk \<Rightarrow>
               runq (snd (dispatch_event event s1)) = runq s1 @ [(tk, event)]
               \<and> queues (snd (dispatch_event event s1)) = queues s1
           | Queue q \<Rightarrow>
               queues (snd (dispatch_event event s1)) = (queues s1)(q := queues s1 q @ [event])
               \<and> runq (snd (dispatch_event event s1)) = runq s1)
       \<and> \<not> dict_contains (registered (snd (dispatch_event event s1))) (key_of event)
       \<and> (\<forall>e\<in>set pre. key_of e = key_of event \<longrightarrow> \<not> oneshot e)
       \<and> map_of (registered s) (key_of event) = Some r
       \<and> (\<exists>res s'. handle_io t s = Some (res, s')
             \<and> \<not> dict_contains (registered s') (key_of event)
             \<and> (res = Inr () \<longrightarrow> (\<forall>e\<in>set post. key_of e \<noteq> key_of event))
             \<and> (res = Inr () \<longrightarrow>
                  filter (\<lambda>e. key_of e = key_of event) (ready (kqueue s)) =
                    filter (\<lambda>e. key_of e = key_of event) pre @ [event])
             \<and> (res = Inr () \<longrightarrow>
                  (case r of
                     Task tk \<Rightarrow>
                       filter (\<lambda>(tk', e). key_of e = key_of event) (drop (length (runq s)) (runq s')) =
                         map (\<lambda>e. (tk, e)) (filter (\<lambda>e. key_of e = key_of event) pre @ [event])
                   | Queue q \<Rightarrow>
                       filter (\<lambda>e. key_of e = key_of event) (drop (length (queues s q)) (queues s' q)) =
                         filter (\<lambda>e. key_of e = key_of event) pre @ [event])))"
proof -
  define s0 where "s0 = s\<lparr>kqueue := drained (length (registered s) + 1) t (kqueue s)\<rparr>"
  define D where "D = AList.delete (key_of event) (registered s1)"
  define s2 where "s2 = deliver r event (s1\<lparr>registered := D\<rparr>)"
  define same where "same = (\<lambda>e. key_of e = key_of event)"
  have steps: "dispatch_event_steps event s1 = (Inr (), [s1\<lparr>registered := D\<rparr>, s2])"
    using assms(3,4) by (simp add: s2_def D_def dispatch_event_steps_found)
  have step: "dispatch_event event s1 = (Inr (), s2)"
    using assms(3,4) by (simp add: s2_def D_def dispatch_event_found)
  have gone2: "map_of (registered s2) (key_of event) = None"
    by (simp add: s2_def D_def map_of_delete_self)
  have goneD: "map_of D (key_of event) = None"
    by (simp add: D_def map_of_delete_self)
  have effect: "case r of
             Task tk \<Rightarrow> runq s2 = runq s1 @ [(tk, event)] \<and> queues s2 = queues s1
           | Queue q \<Rightarrow> queues s2 = (queues s1)(q := queues s1 q @ [event]) \<and> runq s2 = runq s1"
    by (cases r) (simp_all add: s2_def deliver_def reschedule_def put_nowait_def)
  obtain res s' where rest: "dispatch_events post s2 = (res, s')"
    by (cases "dispatch_events post s2")
  have whole: "dispatch_events (pre @ event # post) s0 = (res, s')"
    using assms(2) step rest by (simp add: dispatch_events_append s0_def)
  with assms(1) have h: "handle_io t s = Some (res, s')"
    by (simp add: handle_io_eq s0_def)
  have gone': "map_of (registered s') (key_of event) = None"
  proof (cases "map_of (registered s') (key_of event)")
    case None
    then show ?thesis .
  next
    case (Some r')
    from dispatch_events_shrinks [OF rest this] gone2 show ?thesis by simp
  qed
  have later: "res = Inr () \<longrightarrow> (\<forall>e\<in>set post. key_of e \<noteq> key_of event)"
  proof (intro impI ballI)
    fix e
    assume "res = Inr ()" and e: "e \<in> set post"
    with rest have "dispatch_events post s2 = (Inr (), s')" by simp
    from dispatch_events_registered [OF this e] gone2
    show "key_of e \<noteq> key_of event" by auto
  qed
  have earlier: "\<forall>e\<in>set pre. key_of e = key_of event \<longrightarrow> \<not> oneshot e"
  proof (intro ballI impI notI)
    fix e
    assume e: "e \<in> set pre" and same: "key_of e = key_of event" and one: "oneshot e"
    from dispatch_events_oneshot_absent [OF assms(2) e one]
    have "map_of (registered s1) (key_of e) = None" .
    with same assms(3) show False by simp
  qed
  have start: "map_of (registered s) (key_of event) = Some r"
    using dispatch_events_shrinks [OF assms(2) assms(3)] by simp
  have events: "res = Inr () \<longrightarrow> filter same (ready (kqueue s)) = filter same pre @ [event]"
  proof
    assume "res = Inr ()"
    with later have "filter same post = []" by (auto simp: same_def filter_empty_conv)
    with assms(1) show "filter same (ready (kqueue s)) = filter same pre @ [event]"
      by (simp add: same_def)
  qed
  have delivered: "res = Inr () \<longrightarrow>
      (case r of
         Task tk \<Rightarrow>
           filter (\<lambda>(tk', e). same e) (drop (length (runq s)) (runq s')) =
             map (\<lambda>e. (tk, e)) (filter same pre @ [event])
       | Queue q \<Rightarrow>
           filter same (drop (length (queues s q)) (queues s' q)) = filter same pre @ [event])"
  proof
    assume ok: "res = Inr ()"
    with whole assms(1) have run: "dispatch_events (ready (kqueue s)) s0 = (Inr (), s')" by simp
    have reg0: "registered s0 = registered s" and rq0: "runq s0 = runq s"
      and q0: "queues s0 = queues s" by (simp_all add: s0_def)
    from events ok have ev: "filter same (ready (kqueue s)) = filter same pre @ [event]" by simp
    show "case r of
         Task tk \<Rightarrow>
           filter (\<lambda>(tk', e). same e) (drop (length (runq s)) (runq s')) =
             map (\<lambda>e. (tk, e)) (filter same pre @ [event])
       | Queue q \<Rightarrow>
           filter same (drop (length (queues s q)) (queues s' q)) = filter same pre @ [event]"
    proof (cases r)
      case (Task tk)
      have "filter (\<lambda>(tk', e). same e) (resumed (registered s) evs) =
          map (\<lambda>e. (tk, e)) (filter same evs)" for evs
        using start Task
        by (induction evs) (auto simp: resumed_def same_def split: option.splits receiver.splits)
      with dispatch_events_deliveries [OF run] reg0 rq0 ev Task show ?thesis by simp
    next
      case (Queue q)
      have "filter same (pushed (registered s) q evs) = filter same evs" for evs
        using start Queue by (induction evs) (auto simp: pushed_def same_def)
      with dispatch_events_deliveries [OF run, of q] reg0 q0 ev Queue show ?thesis by simp
    qed
  qed
  from steps step effect gone2 goneD h gone' later earlier start events delivered
  show ?thesis
    unfolding same_def
    by (simp add: s2_def [symmetric] D_def [symmetric] dict_contains_def
        split: receiver.splits)
qed

theorem oneshot_event_removed_then_delivered_witness:
  "ready (kqueue readable_9) = [] @ read_event # []
   \<and> map_of (registered readable_9) (key_of read_event) = Some (Task 1)
   \<and> oneshot read_event
   \<and> map runq (snd (dispatch_event_steps read_event
         (readable_9\<lparr>kqueue := drained (length (registered readable_9) + 1) (Some 0)
            (kqueue readable_9)\<rparr>))) = [[], [(1, read_event)]]
   \<and> map (\<lambda>x. map_of (registered x) (9, KQ_FILTER_READ)) (snd (dispatch_event_steps read_event
         (readable_9\<lparr>kqueue := drained (length (registered readable_9) + 1) (Some 0)
            (kqueue readable_9)\<rparr>))) = [None, None]
   \<and> fst (the (handle_io (Some 0) readable_9)) = Inr ()
   \<and> runq (snd (the (handle_io (Some 0) readable_9))) = [(1, read_event)]
   \<and> \<not> dict_contains (registered (snd (the (handle_io (Some 0) readable_9))))
         (9, KQ_FILTER_READ)
   \<and> ready (kqueue plain_then_oneshot) = [write_event 1] @ oneshot_write # []
   \<and> oneshot oneshot_write
   \<and> fst (the (handle_io (Some 0) plain_then_oneshot)) = Inr ()
   \<and> filter (\<lambda>e. key_of e = key_of oneshot_write)
        (drop (length (queues plain_then_oneshot 0))
           (queues (snd (the (handle_io (Some 0) plain_then_oneshot))) 0)) =
       [write_event 1, oneshot_write]"
proof -
  define s1 where "s1 = readable_9\<lparr>kqueue :=
      drained (length (registered readable_9) + 1) (Some 0) (kqueue readable_9)\<rparr>"
  have h1: "ready (kqueue readable_9) = [] @ read_event # []"
    by (simp add: readable_9_simps)
  have h2: "dispatch_events [] s1 = (Inr (), s1)" by simp
  have h3: "map_of (registered s1) (key_of read_event) = Some (Task 1)"
    by (simp add: s1_def readable_9_simps read_event_simps)
  have h3': "map_of (registered readable_9) (key_of read_event) = Some (Task 1)"
    by (simp add: readable_9_simps read_event_simps)
  have h4: "oneshot read_event" by (simp add: read_event_simps)
  note t = oneshot_event_removed_then_delivered [OF h1 h2 [unfolded s1_def] h3 [unfolded s1_def] h4]
  from t obtain res s' where c: "handle_io (Some 0) readable_9 = Some (res, s')"
    "\<not> dict_contains (registered s') (key_of read_event)" by blast
  from t have step: "dispatch_event read_event s1 =
      (Inr (), deliver (Task 1) read_event
         (s1\<lparr>registered := AList.delete (key_of read_event) (registered s1)\<rparr>))"
    unfolding s1_def by blast
  from t have steps: "dispatch_event_steps read_event s1 =
      (Inr (), [s1\<lparr>registered := AList.delete (key_of read_event) (registered s1)\<rparr>,
         deliver (Task 1) read_event
           (s1\<lparr>registered := AList.delete (key_of read_event) (registered s1)\<rparr>)])"
    unfolding s1_def by blast
  from steps have tr1: "map runq (snd (dispatch_event_steps read_event s1)) =
      [[], [(1, read_event)]]"
    by (simp add: deliver_def reschedule_def s1_def readable_9_simps)
  from steps have tr2: "map (\<lambda>x. map_of (registered x) (9, KQ_FILTER_READ))
      (snd (dispatch_event_steps read_event s1)) = [None, None]"
    by (simp add: deliver_def reschedule_def s1_def readable_9_simps read_event_simps
        delete_conv')
  have "handle_io (Some 0) readable_9 = Some (dispatch_events [read_event] s1)"
    by (simp add: handle_io_eq s1_def readable_9_simps)
  with step have run: "handle_io (Some 0) readable_9 =
      Some (Inr (), deliver (Task 1) read_event
         (s1\<lparr>registered := AList.delete (key_of read_event) (registered s1)\<rparr>))"
    by simp
  from run have o: "fst (the (handle_io (Some 0) readable_9)) = Inr ()" by simp
  from run have q: "runq (snd (the (handle_io (Some 0) readable_9))) = [(1, read_event)]"
    by (simp add: deliver_def reschedule_def s1_def readable_9_simps)
  from c have g: "\<not> dict_contains (registered (snd (the (handle_io (Some 0) readable_9))))
         (9, KQ_FILTER_READ)"
    by (simp add: read_event_simps)
  define u0 where "u0 = plain_then_oneshot\<lparr>kqueue :=
      drained (length (registered plain_then_oneshot) + 1) (Some 0)
        (kqueue plain_then_oneshot)\<rparr>"
  define u1 where "u1 = snd (dispatch_events [write_event 1] u0)"
  have k1: "ready (kqueue plain_then_oneshot) = [write_event 1] @ oneshot_write # []"
    by (simp add: plain_then_oneshot_simps)
  have "fst (dispatch_events [write_event 1] u0) = Inr ()"
    by (simp add: u0_def plain_then_oneshot_simps dispatch_event_found write_event_simps)
  then have k2: "dispatch_events [write_event 1] u0 = (Inr (), u1)"
    by (simp add: u1_def prod_eq_iff)
  have k3: "map_of (registered u1) (key_of oneshot_write) = Some (Queue 0)"
    by (simp add: u1_def u0_def plain_then_oneshot_simps dispatch_event_found
        write_event_simps oneshot_write_simps)
  have k4: "oneshot oneshot_write" by (simp add: oneshot_write_simps)
  from oneshot_event_removed_then_delivered [OF k1 k2 [unfolded u0_def] k3 k4]
  obtain res2 s2 where d: "handle_io (Some 0) plain_then_oneshot = Some (res2, s2)"
    "res2 = Inr () \<longrightarrow>
       filter (\<lambda>e. key_of e = key_of oneshot_write)
         (drop (length (queues plain_then_oneshot 0)) (queues s2 0)) =
       filter (\<lambda>e. key_of e = key_of oneshot_write) [write_event 1] @ [oneshot_write]"
    by auto
  have "fst (the (handle_io (Some 0) plain_then_oneshot)) = Inr ()"
    by (simp add: handle_io_eq plain_then_oneshot_simps oneshot_write_simps write_event_simps
        dispatch_event_found deliver_def put_nowait_def)
  with d(1) have r2: "res2 = Inr ()" by simp
  with d(1) have o2: "fst (the (handle_io (Some 0) plain_then_oneshot)) = Inr ()" by simp
  from d r2 have f2: "filter (\<lambda>e. key_of e = key_of oneshot_write)
        (drop (length (queues plain_then_oneshot 0))
           (queues (snd (the (handle_io (Some 0) plain_then_oneshot))) 0)) =
       [write_event 1, oneshot_write]"
    by (simp add: write_event_simps oneshot_write_simps)
  from h1 h3' h4 tr1 tr2 o q g k1 k4 o2 f2 show ?thesis
    unfolding s1_def by (intro conjI)
qed

subsection \<open>Monitors\<close>

text \<open>
  Claim C4 says that the registration of a monitor remains in the table after every event
  dispatched to it. It does not when the event carries the one-shot flag: with a monitor
  on \<^verbatim>\<open>(3, KQ_FILTER_WRITE)\<close> and one ready one-shot event for that key,
  \<^verbatim>\<open>handle_io\<close> returns normally, the queue has received the event, and the key is no
  longer in the table.
\<close>

theorem monitor_loses_registration_counterexample:
  "map_of (registered monitor_oneshot) (3, KQ_FILTER_WRITE) = Some (Queue 0)
   \<and> ready (kqueue monitor_oneshot) = [oneshot_write]
   \<and> key_of oneshot_write = (3, KQ_FILTER_WRITE)
   \<and> fst (the (handle_io (Some 0) monitor_oneshot)) = Inr ()
   \<and> queues (snd (the (handle_io (Some 0) monitor_oneshot))) 0 = [oneshot_write]
   \<and> \<not> dict_contains (registered (snd (the (handle_io (Some 0) monitor_oneshot))))
         (3, KQ_FILTER_WRITE)"
  by (simp add: handle_io_eq monitor_oneshot_simps oneshot_write_simps dispatch_event_found
      deliver_def put_nowait_def dict_contains_def delete_conv')

text \<open>Three ticks with one write event each.\<close>

lemma tick_write_event:
  assumes "registered s = [((3, KQ_FILTER_WRITE), Queue 0)]" and "ready (kqueue s) = []"
  shows "registered (tick (write_event n) s) = [((3, KQ_FILTER_WRITE), Queue 0)]"
    and "ready (kqueue (tick (write_event n) s)) = []"
    and "queues (tick (write_event n) s) 0 = queues s 0 @ [write_event n]"
  using assms
  by (simp_all add: tick_def handle_io_eq kernel_fires_def dispatch_event_found
      write_event_simps deliver_def put_nowait_def drained_def)

lemma three_ticks:
  "queues (tick (write_event 3) (tick (write_event 2) (tick (write_event 1) monitor_3_write))) 0
     = [write_event 1, write_event 2, write_event 3]"
  "map_of (registered
     (tick (write_event 3) (tick (write_event 2) (tick (write_event 1) monitor_3_write))))
     (3, KQ_FILTER_WRITE) = Some (Queue 0)"
  by (simp_all add: tick_write_event monitor_3_write_simps)

text \<open>
  Claim C4, amended. Let the table hold the queue \<open>q\<close> under the key \<open>k\<close>. An event for
  \<open>k\<close> without the one-shot flag is pushed at the end of \<open>q\<close> and leaves the table as
  it is; so when none of the ready events for \<open>k\<close> carries the one-shot flag,
  \<^verbatim>\<open>handle_io\<close> ends with \<open>q\<close> still registered under \<open>k\<close>, and, when it returns
  normally, \<open>q\<close> has received the events for its key in the order of their arrival. An
  event for \<open>k\<close> with the one-shot flag is pushed to \<open>q\<close> as well, but the key is
  deleted from the table.
\<close>

theorem monitor_keeps_registration:
  assumes "map_of (registered s) k = Some (Queue q)"
      and "\<forall>e\<in>set (ready (kqueue s)). key_of e = k \<longrightarrow> \<not> oneshot e"
  shows "(\<exists>res s'. handle_io t s = Some (res, s')
            \<and> map_of (registered s') k = Some (Queue q)
            \<and> (res = Inr () \<longrightarrow>
                 queues s' q = queues s q @ pushed (registered s) q (ready (kqueue s))))
       \<and> (key_of event = k \<and> \<not> oneshot event \<longrightarrow>
            dispatch_event event s = (Inr (), put_nowait q event s)
            \<and> registered (put_nowait q event s) = registered s
            \<and> queues (put_nowait q event s) q = queues s q @ [event])
       \<and> (key_of event = k \<and> oneshot event \<longrightarrow>
            dispatch_event event s =
              (Inr (), put_nowait q event (s\<lparr>registered := AList.delete k (registered s)\<rparr>))
            \<and> queues (snd (dispatch_event event s)) q = queues s q @ [event]
            \<and> \<not> dict_contains (registered (snd (dispatch_event event s))) k)"
proof -
  define s0 where "s0 = s\<lparr>kqueue := drained (length (registered s) + 1) t (kqueue s)\<rparr>"
  obtain res s' where run: "dispatch_events (ready (kqueue s)) s0 = (res, s')"
    by (cases "dispatch_events (ready (kqueue s)) s0")
  then have h: "handle_io t s = Some (res, s')" by (simp add: handle_io_eq s0_def)
  have reg0: "map_of (registered s0) k = Some (Queue q)" using assms(1) by (simp add: s0_def)
  have kept: "map_of (registered s') k = Some (Queue q)"
    using assms(2) by (intro dispatch_events_keeps [OF run reg0]) simp
  have content: "res = Inr () \<longrightarrow>
      queues s' q = queues s q @ pushed (registered s) q (ready (kqueue s))"
  proof
    assume "res = Inr ()"
    with run have "dispatch_events (ready (kqueue s)) s0 = (Inr (), s')" by simp
    from dispatch_events_deliveries [OF this, of q]
    show "queues s' q = queues s q @ pushed (registered s) q (ready (kqueue s))"
      by (simp add: s0_def)
  qed
  have plain: "key_of event = k \<and> \<not> oneshot event \<longrightarrow>
            dispatch_event event s = (Inr (), put_nowait q event s)
            \<and> registered (put_nowait q event s) = registered s
            \<and> queues (put_nowait q event s) q = queues s q @ [event]"
    using assms(1) by (simp add: dispatch_event_found deliver_def put_nowait_def)
  have once: "key_of event = k \<and> oneshot event \<longrightarrow>
            dispatch_event event s =
              (Inr (), put_nowait q event (s\<lparr>registered := AList.delete k (registered s)\<rparr>))
            \<and> queues (snd (dispatch_event event s)) q = queues s q @ [event]
            \<and> \<not> dict_contains (registered (snd (dispatch_event event s))) k"
    using assms(1)
    by (auto simp: dispatch_event_found deliver_def put_nowait_def dict_contains_def
        map_of_delete_self)
  from h kept content plain once show ?thesis by blast
qed

theorem monitor_keeps_registration_witness:
  "map_of (registered three_writes) (3, KQ_FILTER_WRITE) = Some (Queue 0)
   \<and> \<not> oneshot (write_event 1) \<and> \<not> oneshot (write_event 2) \<and> \<not> oneshot (write_event 3)
   \<and> fst (the (handle_io (Some 0) three_writes)) = Inr ()
   \<and> map_of (registered (snd (the (handle_io (Some 0) three_writes)))) (3, KQ_FILTER_WRITE) =
       Some (Queue 0)
   \<and> queues (snd (the (handle_io (Some 0) three_writes))) 0 =
       [write_event 1, write_event 2, write_event 3]
   \<and> queues (tick (write_event 3) (tick (write_event 2) (tick (write_event 1)
         monitor_3_write))) 0 = [write_event 1, write_event 2, write_event 3]
   \<and> map_of (registered (tick (write_event 3) (tick (write_event 2) (tick (write_event 1)
         monitor_3_write)))) (3, KQ_FILTER_WRITE) = Some (Queue 0)"
proof -
  have h1: "map_of (registered three_writes) (3, KQ_FILTER_WRITE) = Some (Queue 0)"
    by (simp add: three_writes_simps)
  have h2: "\<forall>e\<in>set (ready (kqueue three_writes)).
      key_of e = (3, KQ_FILTER_WRITE) \<longrightarrow> \<not> oneshot e"
    by (simp add: three_writes_simps write_event_simps)
  from monitor_keeps_registration [OF h1 h2, of "Some 0"]
  obtain res s' where c: "handle_io (Some 0) three_writes = Some (res, s')"
    "map_of (registered s') (3, KQ_FILTER_WRITE) = Some (Queue 0)"
    "res = Inr () \<longrightarrow> queues s' 0 = queues three_writes 0 @
       pushed (registered three_writes) 0 (ready (kqueue three_writes))" by blast
  have "fst (the (handle_io (Some 0) three_writes)) = Inr ()"
    by (simp add: handle_io_eq three_writes_simps dispatch_event_found write_event_simps
        deliver_def put_nowait_def)
  with c(1) have res: "res = Inr ()" by simp
  with c(1) have o: "fst (the (handle_io (Some 0) three_writes)) = Inr ()" by simp
  from c(1,2) have m: "map_of (registered (snd (the (handle_io (Some 0) three_writes))))
      (3, KQ_FILTER_WRITE) = Some (Queue 0)" by simp
  from c(1,3) res have q: "queues (snd (the (handle_io (Some 0) three_writes))) 0 =
       [write_event 1, write_event 2, write_event 3]"
    by (simp add: three_writes_simps pushed_def write_event_simps)
  have n: "\<not> oneshot (write_event 1)" "\<not> oneshot (write_event 2)" "\<not> oneshot (write_event 3)"
    by (simp_all add: write_event_simps)
  from h1 n o m q three_ticks show ?thesis by (intro conjI)
qed

subsection \<open>Messages of the errors\<close>

lemma mentions_key_KeyError: "mentions_key (KeyError k) k"
proof -
  have "sublist (str_int (fst k)) (''('' @ str_int (fst k) @ ('', '' @ str_int (snd k) @ '')''))"
    by (rule sublist_appendI)
  moreover have "sublist (str_int (snd k))
      ((''('' @ str_int (fst k) @ '', '') @ str_int (snd k) @ '')'')"
    by (rule sublist_appendI)
  ultimately show ?thesis
    by (simp add: mentions_key_def message_def repr_key_def)
qed

text \<open>
  Claim C7 says that every duplicate-registration error carries the offending key in its
  message. Neither does: when task 1 already waits on \<^verbatim>\<open>(9, KQ_FILTER_READ)\<close>, a second
  \<^verbatim>\<open>wait_kevent\<close> and a \<^verbatim>\<open>monitor_kevent\<close> for that key raise the
  \<^verbatim>\<open>RuntimeError\<close> with the one fixed text, in which the number 9 does not occur.
\<close>

theorem duplicate_message_lacks_key_counterexample:
  "dict_contains (registered pending_read_9) (9, KQ_FILTER_READ)
   \<and> fst (wait_kevent 2 9 KQ_FILTER_READ cancel_kernel_interest pending_read_9) =
       Inl (RuntimeError duplicate_message)
   \<and> fst (monitor_kevent_enter 9 KQ_FILTER_READ pending_read_9) =
       Inl (RuntimeError duplicate_message)
   \<and> message (RuntimeError duplicate_message) =
       ''attempt to register multiple listeners for same ident/filter pair''
   \<and> str_int 9 = ''9''
   \<and> \<not> sublist ''9'' (message (RuntimeError duplicate_message))
   \<and> \<not> mentions_key (RuntimeError duplicate_message) (9, KQ_FILTER_READ)"
  by (simp add: pending_read_9_simps dict_contains_def wait_kevent_def monitor_kevent_enter_def
      message_def duplicate_message_def mentions_key_def str_int_def str_nat.simps
      sublist_Cons_right KQ_FILTER_READ_def)

text \<open>
  Claim C7, amended. The error that \<^verbatim>\<open>handle_io\<close> raises for an event without a
  registration is the \<^verbatim>\<open>KeyError\<close> of the offending key, and its message is the
  \<^verbatim>\<open>repr\<close> of that key, so both numbers of the key occur in it. The duplicate-registration
  error of \<^verbatim>\<open>wait_kevent\<close> and \<^verbatim>\<open>monitor_kevent\<close> is a \<^verbatim>\<open>RuntimeError\<close> with the
  fixed message "attempt to register multiple listeners for same ident/filter pair", whatever
  the key.
\<close>

theorem error_messages:
  "(event \<in> set (ready (kqueue s)) \<and> \<not> dict_contains (registered s) (key_of event) \<longrightarrow>
      (\<exists>e s1. e \<in> set (ready (kqueue s))
         \<and> \<not> dict_contains (registered s1) (key_of e)
         \<and> handle_io t s = Some (Inl (KeyError (key_of e)), s1)
         \<and> message (KeyError (key_of e)) = repr_key (key_of e)
         \<and> mentions_key (KeyError (key_of e)) (key_of e)))
   \<and> (dict_contains (registered s) (i, f) \<longrightarrow>
        fst (wait_kevent current_task i f abort_func s) = Inl (RuntimeError duplicate_message)
        \<and> fst (monitor_kevent_enter i f s) = Inl (RuntimeError duplicate_message))
   \<and> message (RuntimeError duplicate_message) =
       ''attempt to register multiple listeners for same ident/filter pair''"
proof -
  have missing: "event \<in> set (ready (kqueue s)) \<and>
      \<not> dict_contains (registered s) (key_of event) \<longrightarrow>
      (\<exists>e s1. e \<in> set (ready (kqueue s))
         \<and> \<not> dict_contains (registered s1) (key_of e)
         \<and> handle_io t s = Some (Inl (KeyError (key_of e)), s1)
         \<and> message (KeyError (key_of e)) = repr_key (key_of e)
         \<and> mentions_key (KeyError (key_of e)) (key_of e))"
  proof
    assume a: "event \<in> set (ready (kqueue s)) \<and> \<not> dict_contains (registered s) (key_of event)"
    define s0 where "s0 = s\<lparr>kqueue := drained (length (registered s) + 1) t (kqueue s)\<rparr>"
    from a have "event \<in> set (ready (kqueue s))"
      and "map_of (registered s0) (key_of event) = None"
      by (simp_all add: dict_contains_def s0_def)
    from dispatch_events_missing [OF this]
    obtain pre e post s1 where d: "ready (kqueue s) = pre @ e # post"
      "map_of (registered s1) (key_of e) = None"
      "dispatch_events (ready (kqueue s)) s0 = (Inl (KeyError (key_of e)), s1)" by blast
    then have c: "ready (kqueue s) = pre @ e # post"
      "\<not> dict_contains (registered s1) (key_of e)"
      "handle_io t s = Some (Inl (KeyError (key_of e)), s1)"
      by (simp_all add: dict_contains_def handle_io_eq s0_def)
    from c(1) have "e \<in> set (ready (kqueue s))" by simp
    moreover have "message (KeyError (key_of e)) = repr_key (key_of e)"
      by (simp add: message_def)
    ultimately show "\<exists>e s1. e \<in> set (ready (kqueue s))
         \<and> \<not> dict_contains (registered s1) (key_of e)
         \<and> handle_io t s = Some (Inl (KeyError (key_of e)), s1)
         \<and> message (KeyError (key_of e)) = repr_key (key_of e)
         \<and> mentions_key (KeyError (key_of e)) (key_of e)"
      using c(2,3) mentions_key_KeyError by blast
  qed
  have dup: "dict_contains (registered s) (i, f) \<longrightarrow>
        fst (wait_kevent current_task i f abort_func s) = Inl (RuntimeError duplicate_message)
        \<and> fst (monitor_kevent_enter i f s) = Inl (RuntimeError duplicate_message)"
    by (simp add: wait_kevent_def monitor_kevent_enter_def)
  have msg: "message (RuntimeError duplicate_message) =
       ''attempt to register multiple listeners for same ident/filter pair''"
    by (simp add: message_def duplicate_message_def)
  from missing dup msg show ?thesis by (intro conjI)
qed

theorem error_messages_witness:
  "write_event 1 \<in> set (ready (kqueue stray_event))
   \<and> \<not> dict_contains (registered stray_event) (key_of (write_event 1))
   \<and> fst (the (handle_io (Some 0) stray_event)) = Inl (KeyError (3, KQ_FILTER_WRITE))
   \<and> message (KeyError (3, KQ_FILTER_WRITE)) = ''(3, -2)''
   \<and> mentions_key (KeyError (3, KQ_FILTER_WRITE)) (3, KQ_FILTER_WRITE)
   \<and> dict_contains (registered stray_event) (9, KQ_FILTER_READ)
   \<and> fst (wait_kevent 2 9 KQ_FILTER_READ cancel_kernel_interest stray_event) =
       Inl (RuntimeError duplicate_message)"
proof -
  have h1: "write_event 1 \<in> set (ready (kqueue stray_event))"
    by (simp add: stray_event_simps)
  have h2: "\<not> dict_contains (registered stray_event) (key_of (write_event 1))"
    by (simp add: stray_event_simps write_event_simps dict_contains_def KQ_FILTER_WRITE_def)
  have h3: "dict_contains (registered stray_event) (9, KQ_FILTER_READ)"
    by (simp add: stray_event_simps dict_contains_def)
  note t = error_messages [of "write_event 1" stray_event "Some 0" 9 KQ_FILTER_READ 2
      cancel_kernel_interest]
  from t h1 h2 obtain e s1 where c: "e \<in> set (ready (kqueue stray_event))"
    "handle_io (Some 0) stray_event = Some (Inl (KeyError (key_of e)), s1)"
    "mentions_key (KeyError (key_of e)) (key_of e)" by blast
  from c(1) have e: "e = write_event 1" by (simp add: stray_event_simps)
  from c(2) e have o: "fst (the (handle_io (Some 0) stray_event)) =
      Inl (KeyError (3, KQ_FILTER_WRITE))" by (simp add: write_event_simps)
  from c(3) e have m: "mentions_key (KeyError (3, KQ_FILTER_WRITE)) (3, KQ_FILTER_WRITE)"
    by (simp add: write_event_simps)
  have r: "message (KeyError (3, KQ_FILTER_WRITE)) = ''(3, -2)''"
    by (simp add: message_def repr_key_def str_int_def str_nat.simps KQ_FILTER_WRITE_def)
  from t h3 have d: "fst (wait_kevent 2 9 KQ_FILTER_READ cancel_kernel_interest stray_event) =
       Inl (RuntimeError duplicate_message)" by blast
  from h1 h2 o r m h3 d show ?thesis by (intro conjI)
qed

end
